theory Spec2Isabelle
  imports Main "HOL-Library.Multiset" "HOL-Library.Char_ord" "HOL-Library.List_Lexorder"
begin

section \<open>JavaScript values used by the showcase script\<close>

text \<open>
  The development embeds the data pipeline of \<^verbatim>\<open>src/app.js\<close> (class
  \<^verbatim>\<open>GitHubShowcase\<close>): \<^verbatim>\<open>processRepositoryData\<close>, \<^verbatim>\<open>createSearchText\<close>,
  \<^verbatim>\<open>performAdvancedSearch\<close>, \<^verbatim>\<open>updateFilteredRepositories\<close>, \<^verbatim>\<open>sortRepositories\<close>
  and \<^verbatim>\<open>groupRepositoriesByLanguage\<close>.

  Strings are lists of code units in the range 0..255. A thrown exception is the left
  summand of a result; the only exception the modelled code can raise is a
  \<^verbatim>\<open>TypeError\<close>.
\<close>

datatype error = TypeError

subsection \<open>Strings\<close>

definition toLowerCase_char :: "char \<Rightarrow> char" where
  "toLowerCase_char c =
     (let n = (of_char c :: nat) in
      if (65 \<le> n \<and> n \<le> 90) \<or> (192 \<le> n \<and> n \<le> 222 \<and> n \<noteq> 215)
      then char_of (n + 32) else c)"

definition toLowerCase :: "string \<Rightarrow> string" where
  "toLowerCase s = map toLowerCase_char s"

text \<open>The code units matched by the regular expression class \<^verbatim>\<open>\s\<close>.\<close>

definition is_space :: "char \<Rightarrow> bool" where
  "is_space c = ((of_char c :: nat) \<in> {9, 10, 11, 12, 13, 32, 160})"

text \<open>\<^verbatim>\<open>parts.join(' ')\<close>\<close>

fun join_space :: "string list \<Rightarrow> string" where
  "join_space [] = []"
| "join_space [p] = p"
| "join_space (p # q # ps) = p @ CHR '' '' # join_space (q # ps)"

text \<open>\<^verbatim>\<open>s.includes(t)\<close>: \<open>t\<close> occurs in \<open>s\<close> as a contiguous block.\<close>

fun starts_with :: "string \<Rightarrow> string \<Rightarrow> bool" where
  "starts_with s [] = True"
| "starts_with [] (d # t) = False"
| "starts_with (c # s) (d # t) = (c = d \<and> starts_with s t)"

fun str_includes :: "string \<Rightarrow> string \<Rightarrow> bool" where
  "str_includes [] t = (t = [])"
| "str_includes (c # s) t = (starts_with (c # s) t \<or> str_includes s t)"

subsection \<open>\<^verbatim>\<open>Array.prototype.sort\<close>\<close>

text \<open>
  The sort is stable and orders \<open>a\<close> before \<open>b\<close> when the comparator is negative.
  For a comparator that is a consistent total preorder the result is determined by
  these two facts alone, so the stable insertion sort below computes it; every
  comparator of the script compares integer or collation keys and is consistent.
\<close>

fun insert_cmp :: "('a \<Rightarrow> 'a \<Rightarrow> int) \<Rightarrow> 'a \<Rightarrow> 'a list \<Rightarrow> 'a list" where
  "insert_cmp cmp x [] = [x]"
| "insert_cmp cmp x (y # ys) =
     (if cmp x y \<le> 0 then x # y # ys else y # insert_cmp cmp x ys)"

definition js_sort :: "('a \<Rightarrow> 'a \<Rightarrow> int) \<Rightarrow> 'a list \<Rightarrow> 'a list" where
  "js_sort cmp xs = foldr (insert_cmp cmp) xs []"

section \<open>Data model\<close>

text \<open>
  A raw record of \<^verbatim>\<open>data.json\<close>: every field is optional (\<open>None\<close> is
  \<^verbatim>\<open>undefined\<close> or \<^verbatim>\<open>null\<close>). A field that is present has the type the
  repository schema gives it: integer id and star count, string name, description and
  language, a list of topic strings, an owner object. Timestamps are the millisecond
  value of \<^verbatim>\<open>new Date(...)\<close> of a well-formed date string. Only the fields read by
  the pipeline are kept; the display-only fields (\<^verbatim>\<open>html_url\<close>, \<^verbatim>\<open>homepage\<close>,
  avatar, \<^verbatim>\<open>formattedStars\<close>, \<^verbatim>\<open>relativeTime\<close>, \<^verbatim>\<open>languageColor\<close>) are
  never read or written by it.
\<close>

type_synonym timestamp = int

record repo_owner =
  login :: "string option"

record raw_repo =
  raw_id :: "int option"
  raw_name :: "string option"
  raw_full_name :: "string option"
  raw_description :: "string option"
  raw_stargazers_count :: "int option"
  raw_language :: "string option"
  raw_topics :: "string list option"
  raw_created_at :: "timestamp option"
  raw_updated_at :: "timestamp option"
  raw_owner :: "repo_owner option"

text \<open>
  A normalized entry. \<open>repo_id\<close> and \<open>name\<close> hold the raw value, with the falsy
  values \<open>0\<close> and \<open>''''\<close> standing for an absent one. \<open>searchScore\<close> is
  \<open>None\<close> until a search pass assigns it.
\<close>

record repository =
  repo_id :: int
  name :: string
  full_name :: "string option"
  description :: string
  stargazers_count :: int
  language :: string
  topics :: "string list"
  created_at :: timestamp
  updated_at :: timestamp
  owner :: "repo_owner option"
  originalIndex :: nat
  searchText :: string
  searchScore :: "int option"

text \<open>
  The parsed payload. An element of a repository array is a record or anything else
  (\<open>None\<close>: \<^verbatim>\<open>null\<close>, a number, a string, ...), which the validity filter drops.
  An object is the list of its own properties in the order \<^verbatim>\<open>Object.keys\<close>
  enumerates them.
\<close>

datatype group_value = GArray "raw_repo option list" | GOther

datatype payload =
    PNull
  | PBool bool
  | PNumber int
  | PString string
  | PArray "raw_repo option list"
  | PObject "(string \<times> group_value) list"

section \<open>Data normalizer\<close>

text \<open>The own property names of \<^verbatim>\<open>Object.prototype\<close>, which every object literal inherits.\<close>

definition Object_prototype_names :: "string list" where
  "Object_prototype_names =
     [''constructor'', ''__defineGetter__'', ''__defineSetter__'', ''hasOwnProperty'',
      ''__lookupGetter__'', ''__lookupSetter__'', ''isPrototypeOf'',
      ''propertyIsEnumerable'', ''toString'', ''valueOf'', ''__proto__'',
      ''toLocaleString'']"

text \<open>\<^verbatim>\<open>languageOrder[language]\<close> is truthy: inherited, or an own non-zero position.\<close>

definition languageOrder_truthy :: "(string \<rightharpoonup> nat) \<Rightarrow> string \<Rightarrow> bool" where
  "languageOrder_truthy lo k =
     (k \<in> set Object_prototype_names \<or> (case lo k of None \<Rightarrow> False | Some n \<Rightarrow> n \<noteq> 0))"

text \<open>
  The body of \<^verbatim>\<open>Object.keys(data).forEach\<close>, on the triple
  (\<^verbatim>\<open>languageOrder\<close>, \<^verbatim>\<open>languageOrderIndex\<close>, \<^verbatim>\<open>repositories\<close>).
\<close>

fun flatten_step ::
  "(string \<rightharpoonup> nat) \<times> nat \<times> raw_repo option list \<Rightarrow> string \<times> group_value \<Rightarrow>
   (string \<rightharpoonup> nat) \<times> nat \<times> raw_repo option list" where
  "flatten_step (lo, i, repos) (lang, languageRepos) =
     (let (lo', i') = (if \<not> languageOrder_truthy lo lang then (lo(lang \<mapsto> i), i + 1) else (lo, i))
      in (lo', i', (case languageRepos of GArray rs \<Rightarrow> repos @ rs | GOther \<Rightarrow> repos)))"

text \<open>\<^verbatim>\<open>createSearchText\<close>\<close>

definition opt_part :: "string option \<Rightarrow> string list" where
  "opt_part v = (case v of None \<Rightarrow> [] | Some s \<Rightarrow> [s])"

definition owner_login :: "repo_owner option \<Rightarrow> string option" where
  "owner_login ow = (case ow of None \<Rightarrow> None | Some p \<Rightarrow> login p)"

definition search_parts :: "raw_repo \<Rightarrow> string list" where
  "search_parts repo =
     opt_part (raw_name repo) @ opt_part (raw_full_name repo) @
     opt_part (raw_description repo) @ opt_part (raw_language repo) @
     (case raw_topics repo of None \<Rightarrow> [] | Some ts \<Rightarrow> ts) @
     opt_part (owner_login (raw_owner repo))"

definition createSearchText :: "raw_repo \<Rightarrow> string" where
  "createSearchText repo =
     toLowerCase (join_space (filter (\<lambda>s. s \<noteq> []) (search_parts repo)))"

text \<open>Truthiness of an optional number and of an optional string.\<close>

definition truthy_num :: "int option \<Rightarrow> bool" where
  "truthy_num v = (case v of None \<Rightarrow> False | Some n \<Rightarrow> n \<noteq> 0)"

definition truthy_str :: "string option \<Rightarrow> bool" where
  "truthy_str v = (case v of None \<Rightarrow> False | Some s \<Rightarrow> s \<noteq> [])"

text \<open>\<^verbatim>\<open>repo && repo.id && repo.name\<close>\<close>

definition is_valid :: "raw_repo option \<Rightarrow> bool" where
  "is_valid e =
     (case e of None \<Rightarrow> False
      | Some repo \<Rightarrow> truthy_num (raw_id repo) \<and> truthy_str (raw_name repo))"

definition valid_entries :: "raw_repo option list \<Rightarrow> raw_repo list" where
  "valid_entries es = List.map_filter (\<lambda>e. if is_valid e then e else None) es"

text \<open>
  The object built by the \<^verbatim>\<open>map\<close> callback; \<open>now\<close> is the clock reading of
  \<^verbatim>\<open>new Date()\<close>, \<open>i\<close> the value of the counter \<^verbatim>\<open>originalIndex++\<close>.
\<close>

definition normalize_repo :: "timestamp \<Rightarrow> nat \<Rightarrow> raw_repo \<Rightarrow> repository" where
  "normalize_repo now i repo =
     \<lparr> repo_id = (case raw_id repo of None \<Rightarrow> 0 | Some n \<Rightarrow> n),
       name = (case raw_name repo of None \<Rightarrow> [] | Some s \<Rightarrow> s),
       full_name = raw_full_name repo,
       description = (case raw_description repo of None \<Rightarrow> [] | Some s \<Rightarrow> s),
       stargazers_count = (case raw_stargazers_count repo of None \<Rightarrow> 0 | Some n \<Rightarrow> n),
       language =
         (case raw_language repo of None \<Rightarrow> ''Unknown''
          | Some l \<Rightarrow> if l = [] then ''Unknown'' else l),
       topics = (case raw_topics repo of None \<Rightarrow> [] | Some ts \<Rightarrow> ts),
       created_at = (case raw_created_at repo of None \<Rightarrow> now | Some t \<Rightarrow> t),
       updated_at = (case raw_updated_at repo of None \<Rightarrow> now | Some t \<Rightarrow> t),
       owner = raw_owner repo,
       originalIndex = i,
       searchText = createSearchText repo,
       searchScore = None \<rparr>"

definition normalize_all :: "timestamp \<Rightarrow> raw_repo list \<Rightarrow> repository list" where
  "normalize_all now repos = map (\<lambda>(i, repo). normalize_repo now i repo) (enumerate 0 repos)"

text \<open>The comparator of the closing \<^verbatim>\<open>.sort\<close>: descending star count.\<close>

definition by_stars_desc :: "repository \<Rightarrow> repository \<Rightarrow> int" where
  "by_stars_desc a b = stargazers_count b - stargazers_count a"

text \<open>
  The flattening part of \<^verbatim>\<open>processRepositoryData(data)\<close>. \<^verbatim>\<open>typeof null\<close> is
  \<^verbatim>\<open>'object'\<close>, so \<^verbatim>\<open>null\<close> reaches \<^verbatim>\<open>Object.keys(data)\<close>, which throws.
  Any other value that is neither an array nor an object leaves the list empty.
\<close>

definition flatten_payload ::
  "payload \<Rightarrow> error + ((string \<rightharpoonup> nat) \<times> raw_repo option list)" where
  "flatten_payload data =
     (case data of
        PArray rs \<Rightarrow> Inr (Map.empty, rs)
      | PObject props \<Rightarrow>
          (let (lo, i, repos) = foldl flatten_step (Map.empty, 0, []) props in Inr (lo, repos))
      | PNull \<Rightarrow> Inl TypeError
      | _ \<Rightarrow> Inr (Map.empty, []))"

text \<open>
  \<^verbatim>\<open>processRepositoryData(data)\<close> returns the normalized list and stores
  \<^verbatim>\<open>this.languageOrder\<close>; the result pairs the two.
\<close>

definition processRepositoryData ::
  "timestamp \<Rightarrow> payload \<Rightarrow> error + ((string \<rightharpoonup> nat) \<times> repository list)" where
  "processRepositoryData now data =
     (case flatten_payload data of
        Inl e \<Rightarrow> Inl e
      | Inr (lo, repos) \<Rightarrow>
          Inr (lo, js_sort by_stars_desc (normalize_all now (valid_entries repos))))"

section \<open>Filter engine\<close>

text \<open>\<^verbatim>\<open>s.split(/\s+/)\<close>: the pieces between maximal runs of white space.\<close>

function split_ws :: "string \<Rightarrow> string list" where
  "split_ws [] = [[]]"
| "split_ws (c # cs) =
     (if is_space c then [] # split_ws (dropWhile is_space cs)
      else (case split_ws cs of [] \<Rightarrow> [[c]] | p # ps \<Rightarrow> (c # p) # ps))"
  by pat_completeness auto
termination
  by (relation "measure length") (auto simp: length_dropWhile_le less_Suc_eq_le)

definition search_terms :: "string \<Rightarrow> string list" where
  "search_terms searchTerm = filter (\<lambda>t. length t > 0) (split_ws (toLowerCase searchTerm))"

text \<open>
  Repository objects are shared between \<^verbatim>\<open>state.repositories\<close>, the filtered copy and
  the search result, and the search pass assigns \<^verbatim>\<open>repo.searchScore\<close>. The objects
  therefore live in a store; arrays hold references.
\<close>

type_synonym ref = nat
type_synonym heap = "ref \<Rightarrow> repository"

text \<open>
  One round of the \<^verbatim>\<open>terms.forEach\<close> body: the points the term adds.
  \<^verbatim>\<open>repo.owner.login.toLowerCase()\<close> throws when the owner or its login is absent.
\<close>

definition term_points :: "repository \<Rightarrow> string \<Rightarrow> string \<Rightarrow> int" where
  "term_points repo ownerLogin t =
     (if str_includes (toLowerCase (name repo)) t then 10 else 0) +
     (if str_includes (toLowerCase (description repo)) t then 5 else 0) +
     (if list_ex (\<lambda>topic. str_includes (toLowerCase topic) t) (topics repo) then 8 else 0) +
     (if str_includes (toLowerCase (language repo)) t then 6 else 0) +
     (if str_includes (toLowerCase ownerLogin) t then 4 else 0)"

definition term_score :: "repository \<Rightarrow> string \<Rightarrow> error + int" where
  "term_score repo t =
     (case owner repo of
        None \<Rightarrow> Inl TypeError
      | Some ow \<Rightarrow>
          (case login ow of
             None \<Rightarrow> Inl TypeError
           | Some l \<Rightarrow> Inr (term_points repo l t)))"

fun score_terms :: "repository \<Rightarrow> string list \<Rightarrow> int \<Rightarrow> error + int" where
  "score_terms repo [] score = Inr score"
| "score_terms repo (t # ts) score =
     (case term_score repo t of
        Inl e \<Rightarrow> Inl e
      | Inr d \<Rightarrow> score_terms repo ts (score + d))"

definition hasAllTerms :: "repository \<Rightarrow> string list \<Rightarrow> bool" where
  "hasAllTerms repo ts = list_all (\<lambda>t. str_includes (searchText repo) t) ts"

text \<open>
  The \<^verbatim>\<open>repositories.filter\<close> pass with its callback. The store is returned as the
  pass leaves it, also when the callback throws.
\<close>

fun search_filter :: "string list \<Rightarrow> heap \<Rightarrow> ref list \<Rightarrow> heap \<times> (error + ref list)" where
  "search_filter ts h [] = (h, Inr [])"
| "search_filter ts h (a # as) =
     (if \<not> hasAllTerms (h a) ts then search_filter ts h as
      else (case score_terms (h a) ts 0 of
              Inl e \<Rightarrow> (h, Inl e)
            | Inr score \<Rightarrow>
                (case search_filter ts (h(a := (h a)\<lparr>searchScore := Some score\<rparr>)) as of
                   (h', Inl e) \<Rightarrow> (h', Inl e)
                 | (h', Inr kept) \<Rightarrow> (h', Inr (if score > 0 then a # kept else kept)))))"

text \<open>\<^verbatim>\<open>(b.searchScore || 0) - (a.searchScore || 0)\<close>\<close>

definition score_or_0 :: "int option \<Rightarrow> int" where
  "score_or_0 v = (case v of None \<Rightarrow> 0 | Some n \<Rightarrow> n)"

definition by_searchScore_desc :: "heap \<Rightarrow> ref \<Rightarrow> ref \<Rightarrow> int" where
  "by_searchScore_desc h a b = score_or_0 (searchScore (h b)) - score_or_0 (searchScore (h a))"

definition performAdvancedSearch ::
  "heap \<Rightarrow> ref list \<Rightarrow> string \<Rightarrow> heap \<times> (error + ref list)" where
  "performAdvancedSearch h repos searchTerm =
     (if searchTerm = [] then (h, Inr repos)
      else (case search_filter (search_terms searchTerm) h repos of
              (h', Inl e) \<Rightarrow> (h', Inl e)
            | (h', Inr kept) \<Rightarrow> (h', Inr (js_sort (by_searchScore_desc h') kept))))"

text \<open>The language filter of \<^verbatim>\<open>updateFilteredRepositories\<close>.\<close>

definition language_filter :: "heap \<Rightarrow> string \<Rightarrow> ref list \<Rightarrow> ref list" where
  "language_filter h selected refs = filter (\<lambda>a. language (h a) = selected) refs"

section \<open>Sort engine\<close>

text \<open>
  \<^verbatim>\<open>a.localeCompare(b, undefined, { sensitivity: 'base' })\<close>. At base sensitivity
  strings that differ only in case compare as equal, so the result is a comparison of
  the case-folded strings. How the host's collation orders those is not fixed by the
  script: it enters as the key function \<open>collate\<close>, whose keys are linearly
  ordered.
\<close>

definition localeCompare_base :: "(string \<Rightarrow> 'k::linorder) \<Rightarrow> string \<Rightarrow> string \<Rightarrow> int" where
  "localeCompare_base collate s t =
     (if collate (toLowerCase s) < collate (toLowerCase t) then - 1
      else if collate (toLowerCase s) = collate (toLowerCase t) then 0 else 1)"

text \<open>The \<^verbatim>\<open>switch (sortBy)\<close> of the comparator, cases in source order.\<close>

definition comparison ::
  "(string \<Rightarrow> 'k::linorder) \<Rightarrow> string \<Rightarrow> repository \<Rightarrow> repository \<Rightarrow> int" where
  "comparison collate key a b =
     (if key = ''stars'' then stargazers_count b - stargazers_count a
      else if key = ''recent-likes'' then int (originalIndex a) - int (originalIndex b)
      else if key = ''stars-asc'' then stargazers_count a - stargazers_count b
      else if key = ''name'' then localeCompare_base collate (name a) (name b)
      else if key = ''name-desc'' then localeCompare_base collate (name b) (name a)
      else if key = ''updated'' then updated_at b - updated_at a
      else if key = ''created'' then created_at b - created_at a
      else stargazers_count b - stargazers_count a)"

record state =
  mem :: heap
  repositories :: "ref list"
  filteredRepositories :: "ref list"
  searchTerm :: string
  selectedLanguage :: string
  sortBy :: string
  languageCategory :: string
  languageOrder :: "string \<rightharpoonup> nat"

definition sortRepositories :: "(string \<Rightarrow> 'k::linorder) \<Rightarrow> state \<Rightarrow> state" where
  "sortRepositories collate st =
     st\<lparr>filteredRepositories :=
          js_sort (\<lambda>a b. comparison collate (sortBy st) (mem st a) (mem st b))
            (filteredRepositories st)\<rparr>"

text \<open>
  \<^verbatim>\<open>updateFilteredRepositories\<close>. The call \<^verbatim>\<open>this.performAdvancedSearch(...)\<close>
  goes to whatever the instance property holds: the method above or, once
  \<^verbatim>\<open>optimizeSearch\<close> has run, a wrapper that answers from a cache keyed by term and
  list length and calls the method on a miss. The callee is the parameter \<open>search\<close>:
  the method, or the wrapper of the next section. When the search throws, the
  assignment to \<^verbatim>\<open>state.filteredRepositories\<close> is not reached: the state keeps its
  arrays and the store is as the search left it.
\<close>

definition updateFilteredRepositories ::
  "(string \<Rightarrow> 'k::linorder) \<Rightarrow> (heap \<Rightarrow> ref list \<Rightarrow> string \<Rightarrow> heap \<times> (error + ref list)) \<Rightarrow>
   state \<Rightarrow> state \<times> error option" where
  "updateFilteredRepositories collate search st =
     (case (if searchTerm st \<noteq> []
            then search (mem st) (repositories st) (searchTerm st)
            else (mem st, Inr (repositories st))) of
        (h, Inl e) \<Rightarrow> (st\<lparr>mem := h\<rparr>, Some e)
      | (h, Inr filtered) \<Rightarrow>
          (sortRepositories collate
             (st\<lparr>mem := h,
                 filteredRepositories :=
                   (if selectedLanguage st \<noteq> []
                    then language_filter h (selectedLanguage st) filtered
                    else filtered)\<rparr>),
           None))"

section \<open>Search cache\<close>

text \<open>
  \<^verbatim>\<open>init\<close> runs \<^verbatim>\<open>optimizeSearch\<close> before it loads the data. It creates
  \<^verbatim>\<open>this.searchCache\<close>, a \<^verbatim>\<open>Map\<close> from keys to result arrays, and replaces
  \<^verbatim>\<open>this.performAdvancedSearch\<close> by a wrapper around the method. A \<^verbatim>\<open>Map\<close> keeps
  its entries in insertion order: it is a list of pairs, searched from the front.
\<close>

type_synonym searchCache = "(string \<times> ref list) list"

text \<open>\<^verbatim>\<open>map.set(key, value)\<close>: a present key keeps its place, a new key goes last.\<close>

definition Map_set :: "'k \<Rightarrow> 'v \<Rightarrow> ('k \<times> 'v) list \<Rightarrow> ('k \<times> 'v) list" where
  "Map_set k v m =
     (if map_of m k = None then m @ [(k, v)]
      else map (\<lambda>p. if fst p = k then (k, v) else p) m)"

text \<open>The decimal digits of a number, as a template literal prints an array length.\<close>

function decimal :: "nat \<Rightarrow> string" where
  "decimal n =
     (if n < 10 then [''0123456789'' ! n]
      else decimal (n div 10) @ [''0123456789'' ! (n mod 10)])"
  by pat_completeness auto
termination
  by (relation "measure id") auto

declare decimal.simps [simp del]

text \<open>The cache key: the search term, a hyphen, and the length of the list searched.\<close>

definition cacheKey :: "string \<Rightarrow> ref list \<Rightarrow> string" where
  "cacheKey query repos = query @ ''-'' @ decimal (length repos)"

text \<open>
  The wrapper. A key that is in the cache is answered with the cached array, and the
  method is not called: no object is touched. Otherwise the method runs; when it throws,
  the cache is left as it is; when it returns, the oldest entry is deleted if the cache
  holds more than 50, and the result is stored under the key.
\<close>

definition optimized_search ::
  "searchCache \<Rightarrow> heap \<Rightarrow> ref list \<Rightarrow> string \<Rightarrow> searchCache \<times> heap \<times> (error + ref list)" where
  "optimized_search cache h repos query =
     (case map_of cache (cacheKey query repos) of
        Some result \<Rightarrow> (cache, h, Inr result)
      | None \<Rightarrow>
          (case performAdvancedSearch h repos query of
             (h', Inl e) \<Rightarrow> (cache, h', Inl e)
           | (h', Inr result) \<Rightarrow>
               (Map_set (cacheKey query repos) result
                  (if length cache > 50 then tl cache else cache),
                h', Inr result)))"

text \<open>The wrapper as the callee of \<^verbatim>\<open>updateFilteredRepositories\<close>, for a given cache.\<close>

definition cached_search ::
  "searchCache \<Rightarrow> heap \<Rightarrow> ref list \<Rightarrow> string \<Rightarrow> heap \<times> (error + ref list)" where
  "cached_search cache h repos query = snd (optimized_search cache h repos query)"

text \<open>
  \<^verbatim>\<open>setState({ searchTerm })\<close> with the wrapper installed: the term is stored and
  \<^verbatim>\<open>updateFilteredRepositories\<close> runs. The array the wrapper returns is the array the
  cache holds under the key. Unless the language filter copies it, that very array
  becomes \<^verbatim>\<open>state.filteredRepositories\<close> and is sorted in place, so the cache then
  holds it as sorted.
\<close>

definition search_step ::
  "(string \<Rightarrow> 'k::linorder) \<Rightarrow> searchCache \<times> state \<Rightarrow> string \<Rightarrow> searchCache \<times> state" where
  "search_step collate cs q =
     (case cs of (cache, st) \<Rightarrow>
        (let st0 = st\<lparr>searchTerm := q\<rparr>;
             cache' = (if q = [] then cache
                       else fst (optimized_search cache (mem st0) (repositories st0) q))
         in case updateFilteredRepositories collate (cached_search cache) st0 of
              (st', Some e) \<Rightarrow> (cache', st')
            | (st', None) \<Rightarrow>
                (if q \<noteq> [] \<and> selectedLanguage st0 = []
                 then Map_set (cacheKey q (repositories st0)) (filteredRepositories st') cache'
                 else cache', st')))"

section \<open>Grouping by language\<close>

text \<open>
  An object built at run time is the list of its own properties in insertion order.
  \<^verbatim>\<open>Object.entries\<close> enumerates the array-index keys first, in ascending numeric
  order, then the other keys in insertion order.
\<close>

definition is_digit :: "char \<Rightarrow> bool" where
  "is_digit c = (48 \<le> (of_char c :: nat) \<and> (of_char c :: nat) \<le> 57)"

definition index_value :: "string \<Rightarrow> nat" where
  "index_value s = foldl (\<lambda>n c. 10 * n + ((of_char c :: nat) - 48)) 0 s"

definition is_array_index :: "string \<Rightarrow> bool" where
  "is_array_index s =
     (case s of
        [] \<Rightarrow> False
      | c # cs \<Rightarrow>
          list_all is_digit s \<and> (cs = [] \<or> c \<noteq> CHR ''0'') \<and> index_value s < 4294967295)"

definition Object_entries :: "(string \<times> 'v) list \<Rightarrow> (string \<times> 'v) list" where
  "Object_entries props =
     sort_key (\<lambda>p. index_value (fst p)) (filter (\<lambda>p. is_array_index (fst p)) props) @
     filter (\<lambda>p. \<not> is_array_index (fst p)) props"

definition set_property :: "(string \<times> 'v) list \<Rightarrow> string \<Rightarrow> 'v \<Rightarrow> (string \<times> 'v) list" where
  "set_property props k v =
     (if k \<in> fst ` set props then map (\<lambda>p. if fst p = k then (k, v) else p) props
      else props @ [(k, v)])"

definition Object_fromEntries :: "(string \<times> 'v) list \<Rightarrow> (string \<times> 'v) list" where
  "Object_fromEntries entries = foldl (\<lambda>obj p. set_property obj (fst p) (snd p)) [] entries"

text \<open>
  The \<^verbatim>\<open>repositories.forEach\<close> of \<^verbatim>\<open>groupRepositoriesByLanguage\<close>. For a language
  named like a member of \<^verbatim>\<open>Object.prototype\<close> the read \<^verbatim>\<open>grouped[language]\<close>
  yields the inherited member, which is truthy and has no \<^verbatim>\<open>push\<close>: the call throws.
\<close>

definition push_group ::
  "(string \<times> ref list) list \<Rightarrow> string \<Rightarrow> ref \<Rightarrow> (string \<times> ref list) list" where
  "push_group grouped lang a =
     (case map_of grouped lang of
        None \<Rightarrow> grouped @ [(lang, [a])]
      | Some members \<Rightarrow> map (\<lambda>p. if fst p = lang then (lang, snd p @ [a]) else p) grouped)"

text \<open>\<^verbatim>\<open>repo.language || 'Other'\<close>\<close>

definition group_key :: "repository \<Rightarrow> string" where
  "group_key repo = (if language repo = [] then ''Other'' else language repo)"

fun group_repos ::
  "heap \<Rightarrow> (string \<times> ref list) list \<Rightarrow> ref list \<Rightarrow> error + (string \<times> ref list) list" where
  "group_repos h grouped [] = Inr grouped"
| "group_repos h grouped (a # as) =
     (let lang = group_key (h a) in
      if lang \<in> set Object_prototype_names then Inl TypeError
      else group_repos h (push_group grouped lang a) as)"

text \<open>\<^verbatim>\<open>this.languageOrder[lang] ?? 999\<close>, for a language that is not inherited.\<close>

definition order_or_999 :: "(string \<rightharpoonup> nat) \<Rightarrow> string \<Rightarrow> int" where
  "order_or_999 lo lang = (case lo lang of None \<Rightarrow> 999 | Some n \<Rightarrow> int n)"

definition by_language_order ::
  "(string \<rightharpoonup> nat) \<Rightarrow> string \<times> ref list \<Rightarrow> string \<times> ref list \<Rightarrow> int" where
  "by_language_order lo ea eb = order_or_999 lo (fst ea) - order_or_999 lo (fst eb)"

definition by_group_size :: "string \<times> ref list \<Rightarrow> string \<times> ref list \<Rightarrow> int" where
  "by_group_size ea eb = int (length (snd eb)) - int (length (snd ea))"

text \<open>
  \<^verbatim>\<open>groupRepositoriesByLanguage\<close> returns the object made by
  \<^verbatim>\<open>Object.fromEntries(sortedEntries)\<close>; the renderer walks it with
  \<^verbatim>\<open>Object.entries\<close>.
\<close>

definition groupRepositoriesByLanguage ::
  "state \<Rightarrow> ref list \<Rightarrow> error + (string \<times> ref list) list" where
  "groupRepositoriesByLanguage st repos =
     (case group_repos (mem st) [] repos of
        Inl e \<Rightarrow> Inl e
      | Inr grouped \<Rightarrow>
          Inr (Object_fromEntries
                 (if languageCategory st = ''recently''
                  then js_sort (by_language_order (languageOrder st)) (Object_entries grouped)
                  else js_sort by_group_size (Object_entries grouped))))"

definition group_order :: "(string \<times> ref list) list \<Rightarrow> string list" where
  "group_order obj = map fst (Object_entries obj)"

section \<open>Reference notions and example data\<close>

text \<open>
  The records a payload holds, read off its shape: the elements of the array, or of
  every array-valued property of the object, in order.
\<close>

definition payload_records :: "payload \<Rightarrow> raw_repo option list" where
  "payload_records data =
     (case data of
        PArray rs \<Rightarrow> rs
      | PObject props \<Rightarrow> concat (map (\<lambda>p. case snd p of GArray rs \<Rightarrow> rs | GOther \<Rightarrow> []) props)
      | _ \<Rightarrow> [])"

text \<open>Raw records used to run the functions on concrete inputs.\<close>

definition ex_x :: raw_repo where
  "ex_x = \<lparr> raw_id = Some 1, raw_name = Some ''x'', raw_full_name = None,
            raw_description = None, raw_stargazers_count = Some 5, raw_language = Some ''Go'',
            raw_topics = None, raw_created_at = None, raw_updated_at = None,
            raw_owner = None \<rparr>"

definition ex_y :: raw_repo where
  "ex_y = \<lparr> raw_id = Some 2, raw_name = Some ''y'', raw_full_name = None,
            raw_description = None, raw_stargazers_count = Some 50, raw_language = Some ''Go'',
            raw_topics = None, raw_created_at = None, raw_updated_at = None,
            raw_owner = None \<rparr>"

definition ex_nameless :: raw_repo where
  "ex_nameless = \<lparr> raw_id = Some 3, raw_name = Some '''', raw_full_name = None,
            raw_description = None, raw_stargazers_count = Some 7, raw_language = None,
            raw_topics = None, raw_created_at = None, raw_updated_at = None,
            raw_owner = None \<rparr>"

text \<open>
  Notions used to state what the search pass does: an object changed in nothing but its
  \<^verbatim>\<open>searchScore\<close>; the score the \<^verbatim>\<open>forEach\<close> loop accumulates for an object
  (0 when the loop throws) and whether it completes; the objects the filter callback
  keeps; the store after a pass in which no callback throws; a term found in one of the
  five scored fields; a term found in the full name.
\<close>

definition unchanged_except_searchScore :: "repository \<Rightarrow> repository \<Rightarrow> bool" where
  "unchanged_except_searchScore r r' = (r' = r\<lparr>searchScore := searchScore r'\<rparr>)"

definition relevance :: "repository \<Rightarrow> string list \<Rightarrow> int" where
  "relevance repo ts = (case score_terms repo ts 0 of Inl e \<Rightarrow> 0 | Inr score \<Rightarrow> score)"

definition scorable :: "repository \<Rightarrow> string list \<Rightarrow> bool" where
  "scorable repo ts = (case score_terms repo ts 0 of Inl e \<Rightarrow> False | Inr score \<Rightarrow> True)"

definition retained :: "string list \<Rightarrow> heap \<Rightarrow> ref \<Rightarrow> bool" where
  "retained ts h a = (hasAllTerms (h a) ts \<and> 0 < relevance (h a) ts)"

definition rescored :: "string list \<Rightarrow> heap \<Rightarrow> ref list \<Rightarrow> heap" where
  "rescored ts h refs =
     (\<lambda>a. if a \<in> set refs \<and> hasAllTerms (h a) ts
          then (h a)\<lparr>searchScore := Some (relevance (h a) ts)\<rparr> else h a)"

definition in_scored_field :: "repository \<Rightarrow> string \<Rightarrow> string \<Rightarrow> bool" where
  "in_scored_field repo ownerLogin t =
     (str_includes (toLowerCase (name repo)) t \<or>
      str_includes (toLowerCase (description repo)) t \<or>
      list_ex (\<lambda>topic. str_includes (toLowerCase topic) t) (topics repo) \<or>
      str_includes (toLowerCase (language repo)) t \<or>
      str_includes (toLowerCase ownerLogin) t)"

definition in_full_name :: "repository \<Rightarrow> string \<Rightarrow> bool" where
  "in_full_name repo t =
     (case full_name repo of None \<Rightarrow> False | Some f \<Rightarrow> str_includes (toLowerCase f) t)"

text \<open>
  The white-space-separated words of a string, as the search terms are described: its
  maximal blocks of characters other than white space, from left to right.
\<close>

function ws_words :: "string \<Rightarrow> string list" where
  "ws_words [] = []"
| "ws_words (c # cs) =
     (if is_space c then ws_words cs
      else takeWhile (\<lambda>x. \<not> is_space x) (c # cs) #
           ws_words (dropWhile (\<lambda>x. \<not> is_space x) cs))"
  by pat_completeness auto
termination
  by (relation "measure length") (auto simp: length_dropWhile_le less_Suc_eq_le)

text \<open>Three more raw records, a store and a state for concrete runs.\<close>

definition ex_react :: raw_repo where
  "ex_react = \<lparr> raw_id = Some 10, raw_name = Some ''react'',
      raw_full_name = Some ''facebook/react'', raw_description = Some ''UI library'',
      raw_stargazers_count = Some 200, raw_language = Some ''JavaScript'',
      raw_topics = Some [''frontend''], raw_created_at = Some 100, raw_updated_at = Some 300,
      raw_owner = Some \<lparr> login = Some ''facebook'' \<rparr> \<rparr>"

definition ex_vue :: raw_repo where
  "ex_vue = \<lparr> raw_id = Some 11, raw_name = Some ''Vue'',
      raw_full_name = Some ''vuejs/vue'', raw_description = Some ''frontend framework'',
      raw_stargazers_count = Some 150, raw_language = Some ''TypeScript'',
      raw_topics = Some [''frontend''], raw_created_at = Some 200, raw_updated_at = Some 250,
      raw_owner = Some \<lparr> login = Some ''vuejs'' \<rparr> \<rparr>"

definition ex_orphan :: raw_repo where
  "ex_orphan = \<lparr> raw_id = Some 12, raw_name = Some ''reactor'',
      raw_full_name = None, raw_description = None,
      raw_stargazers_count = Some 150, raw_language = Some ''Go'',
      raw_topics = None, raw_created_at = None, raw_updated_at = None,
      raw_owner = None \<rparr>"

text \<open>A store holding the three entries at the addresses 0, 1 and 2 (and beyond).\<close>

definition ex_heap :: heap where
  "ex_heap a =
     normalize_repo 0 a (if a = 0 then ex_react else if a = 1 then ex_vue else ex_orphan)"

definition ex_state :: state where
  "ex_state = \<lparr> mem = ex_heap, repositories = [0, 1], filteredRepositories = [0, 1],
      searchTerm = '''', selectedLanguage = '''', sortBy = ''recent-likes'',
      languageCategory = ''recently'', languageOrder = Map.empty \<rparr>"

text \<open>
  The ordering the table of sort keys prescribes, written out key by key: the order each
  comparator is meant to produce. Any key outside the table means descending stars.
\<close>

definition ordered_by ::
  "(string \<Rightarrow> 'k::linorder) \<Rightarrow> string \<Rightarrow> repository \<Rightarrow> repository \<Rightarrow> bool" where
  "ordered_by collate key a b =
     (if key = ''recent-likes'' then originalIndex a \<le> originalIndex b
      else if key = ''stars-asc'' then stargazers_count a \<le> stargazers_count b
      else if key = ''name'' then collate (toLowerCase (name a)) \<le> collate (toLowerCase (name b))
      else if key = ''name-desc''
        then collate (toLowerCase (name b)) \<le> collate (toLowerCase (name a))
      else if key = ''updated'' then updated_at b \<le> updated_at a
      else if key = ''created'' then created_at b \<le> created_at a
      else stargazers_count b \<le> stargazers_count a)"

text \<open>
  Four entries for the sort examples. Two names differ only in case, and the order of
  \<open>banana\<close>, \<open>Apple\<close>, \<open>Cherry\<close> by code unit differs from their order
  without regard to case.
\<close>

definition ex_named :: "string \<Rightarrow> int \<Rightarrow> timestamp \<Rightarrow> timestamp \<Rightarrow> raw_repo" where
  "ex_named n stars created updated =
     \<lparr> raw_id = Some 1, raw_name = Some n, raw_full_name = None, raw_description = None,
       raw_stargazers_count = Some stars, raw_language = None, raw_topics = None,
       raw_created_at = Some created, raw_updated_at = Some updated, raw_owner = None \<rparr>"

definition ex_sort_state :: "string \<Rightarrow> state" where
  "ex_sort_state key =
     \<lparr> mem = (\<lambda>a. normalize_repo 0 (3 - a)
                 (if a = 0 then ex_named ''banana'' 10 300 20
                  else if a = 1 then ex_named ''Apple'' 50 100 30
                  else if a = 2 then ex_named ''Cherry'' 5 200 10
                  else ex_named ''APPLE'' 7 400 5)),
       repositories = [0, 1, 2, 3], filteredRepositories = [0, 1, 2, 3],
       searchTerm = '''', selectedLanguage = '''', sortBy = key,
       languageCategory = ''recently'', languageOrder = Map.empty \<rparr>"

text \<open>The number of entries of a list that fall into the group of a language.\<close>

definition group_size :: "heap \<Rightarrow> ref list \<Rightarrow> string \<Rightarrow> nat" where
  "group_size h refs lang = length (filter (\<lambda>a. group_key (h a) = lang) refs)"

text \<open>Entries in given languages, for concrete runs of the grouping.\<close>

definition ex_in_language :: "string \<Rightarrow> raw_repo" where
  "ex_in_language l =
     \<lparr> raw_id = Some 1, raw_name = Some ''n'', raw_full_name = None, raw_description = None,
       raw_stargazers_count = None, raw_language = Some l, raw_topics = None,
       raw_created_at = None, raw_updated_at = None, raw_owner = None \<rparr>"

definition ex_languages :: "string list" where
  "ex_languages = [''C'', ''Go'', ''Rust'', ''TypeScript'', ''Go'', ''TypeScript'',
                   ''TypeScript'', ''Go'', ''TypeScript'', ''TypeScript'']"

definition ex_group_state :: "string \<Rightarrow> (string \<rightharpoonup> nat) \<Rightarrow> state" where
  "ex_group_state category lo =
     \<lparr> mem = (\<lambda>a. normalize_repo 0 a
                 (ex_in_language (if a < length ex_languages then ex_languages ! a else ''Zig''))),
       repositories = [], filteredRepositories = [],
       searchTerm = '''', selectedLanguage = '''', sortBy = ''recent-likes'',
       languageCategory = category, languageOrder = lo \<rparr>"

section \<open>Properties of the stable sort\<close>

lemma mset_insert_cmp: "mset (insert_cmp cmp x ys) = add_mset x (mset ys)"
  by (induction ys) auto

lemma mset_js_sort: "mset (js_sort cmp xs) = mset xs"
  unfolding js_sort_def by (induction xs) (auto simp: mset_insert_cmp)

lemma set_js_sort: "set (js_sort cmp xs) = set xs"
  using mset_js_sort [of cmp xs] by (metis set_mset_mset)

lemma length_js_sort: "length (js_sort cmp xs) = length xs"
  using mset_js_sort [of cmp xs] by (metis size_mset)

lemma set_insert_cmp: "set (insert_cmp cmp x ys) = insert x (set ys)"
  using mset_insert_cmp [of cmp x ys] by (metis set_mset_mset set_mset_add_mset_insert)

lemma sorted_insert_cmp:
  assumes total: "\<And>a b. cmp a b \<le> 0 \<or> cmp b a \<le> 0"
    and trans: "\<And>a b c. cmp a b \<le> 0 \<Longrightarrow> cmp b c \<le> 0 \<Longrightarrow> cmp a c \<le> 0"
  shows "sorted_wrt (\<lambda>a b. cmp a b \<le> 0) ys \<Longrightarrow>
         sorted_wrt (\<lambda>a b. cmp a b \<le> 0) (insert_cmp cmp x ys)"
proof (induction ys)
  case Nil
  then show ?case by simp
next
  case (Cons y ys)
  show ?case
  proof (cases "cmp x y \<le> 0")
    case True
    with Cons.prems trans show ?thesis by auto
  next
    case False
    with total have "cmp y x \<le> 0" by blast
    with False Cons show ?thesis by (auto simp: set_insert_cmp)
  qed
qed

lemma sorted_js_sort:
  assumes total: "\<And>a b. cmp a b \<le> 0 \<or> cmp b a \<le> 0"
    and trans: "\<And>a b c. cmp a b \<le> 0 \<Longrightarrow> cmp b c \<le> 0 \<Longrightarrow> cmp a c \<le> 0"
  shows "sorted_wrt (\<lambda>a b. cmp a b \<le> 0) (js_sort cmp xs)"
  unfolding js_sort_def
  by (induction xs) (auto intro: sorted_insert_cmp [OF total trans])

text \<open>Stability: elements that compare as equal keep their relative order.\<close>

lemma filter_insert_cmp:
  assumes "\<And>b. P b \<Longrightarrow> cmp x b \<le> 0"
  shows "filter P (insert_cmp cmp x ys) = (if P x then x # filter P ys else filter P ys)"
  using assms by (induction ys) auto

lemma filter_js_sort:
  assumes "\<And>a b. P a \<Longrightarrow> P b \<Longrightarrow> cmp a b \<le> 0"
  shows "filter P (js_sort cmp xs) = filter P xs"
  unfolding js_sort_def
proof (induction xs)
  case Nil
  show ?case by simp
next
  case (Cons x xs)
  show ?case
  proof (cases "P x")
    case True
    then have "\<And>b. P b \<Longrightarrow> cmp x b \<le> 0" using assms by blast
    then show ?thesis using Cons True by (simp add: filter_insert_cmp)
  next
    case False
    have "filter P (insert_cmp cmp x ys) = filter P ys" for ys
      using False by (induction ys) auto
    then show ?thesis using Cons False by simp
  qed
qed

text \<open>Filtering commutes with the sort, and the sort depends on the comparator only
  at the elements of the list.\<close>

lemma insert_cmp_head:
  "\<forall>z \<in> set zs. cmp x z \<le> 0 \<Longrightarrow> insert_cmp cmp x zs = x # zs"
  by (cases zs) auto

lemma filter_insert_cmp_sorted:
  assumes trans: "\<And>a b c. cmp a b \<le> 0 \<Longrightarrow> cmp b c \<le> 0 \<Longrightarrow> cmp a c \<le> 0"
    and "P x"
  shows "sorted_wrt (\<lambda>a b. cmp a b \<le> 0) ys \<Longrightarrow>
         filter P (insert_cmp cmp x ys) = insert_cmp cmp x (filter P ys)"
proof (induction ys)
  case Nil
  with \<open>P x\<close> show ?case by simp
next
  case (Cons y ys)
  show ?case
  proof (cases "cmp x y \<le> 0")
    case True
    have "\<forall>z \<in> set (filter P (y # ys)). cmp x z \<le> 0"
      using True Cons.prems trans by auto
    then have "insert_cmp cmp x (filter P (y # ys)) = x # filter P (y # ys)"
      by (rule insert_cmp_head)
    with True \<open>P x\<close> show ?thesis by simp
  next
    case False
    with Cons show ?thesis by simp
  qed
qed

lemma filter_js_sort_commute:
  assumes total: "\<And>a b. cmp a b \<le> 0 \<or> cmp b a \<le> 0"
    and trans: "\<And>a b c. cmp a b \<le> 0 \<Longrightarrow> cmp b c \<le> 0 \<Longrightarrow> cmp a c \<le> 0"
  shows "filter P (js_sort cmp xs) = js_sort cmp (filter P xs)"
proof (induction xs)
  case Nil
  show ?case by (simp add: js_sort_def)
next
  case (Cons x xs)
  have step: "js_sort cmp (x # xs) = insert_cmp cmp x (js_sort cmp xs)"
    by (simp add: js_sort_def)
  have sorted: "sorted_wrt (\<lambda>a b. cmp a b \<le> 0) (js_sort cmp xs)"
    by (rule sorted_js_sort [OF total trans])
  show ?case
  proof (cases "P x")
    case True
    have "filter P (insert_cmp cmp x (js_sort cmp xs)) =
          insert_cmp cmp x (filter P (js_sort cmp xs))"
      using trans True sorted by (rule filter_insert_cmp_sorted)
    with True Cons show ?thesis by (simp add: js_sort_def)
  next
    case False
    have "filter P (insert_cmp cmp x ys) = filter P ys" for ys
      using False by (induction ys) auto
    with False Cons show ?thesis by (simp add: js_sort_def)
  qed
qed

lemma insert_cmp_cong:
  "\<forall>b \<in> set ys. cmp1 x b = cmp2 x b \<Longrightarrow> insert_cmp cmp1 x ys = insert_cmp cmp2 x ys"
  by (induction ys) auto

lemma js_sort_cong:
  "\<forall>a \<in> set xs. \<forall>b \<in> set xs. cmp1 a b = cmp2 a b \<Longrightarrow> js_sort cmp1 xs = js_sort cmp2 xs"
proof (induction xs)
  case Nil
  show ?case by (simp add: js_sort_def)
next
  case (Cons x xs)
  then have IH: "js_sort cmp1 xs = js_sort cmp2 xs" by simp
  have "\<forall>b \<in> set (js_sort cmp2 xs). cmp1 x b = cmp2 x b"
    using Cons.prems by (simp add: set_js_sort)
  then have "insert_cmp cmp1 x (js_sort cmp2 xs) = insert_cmp cmp2 x (js_sort cmp2 xs)"
    by (rule insert_cmp_cong)
  with IH show ?case by (simp add: js_sort_def)
qed

section \<open>Properties of the normalizer\<close>

lemma foldl_flatten_step_repos:
  "snd (snd (foldl flatten_step (lo, i, acc) props)) =
   acc @ concat (map (\<lambda>p. case snd p of GArray rs \<Rightarrow> rs | GOther \<Rightarrow> []) props)"
proof (induction props arbitrary: lo i acc)
  case Nil
  show ?case by simp
next
  case (Cons p props)
  obtain lang v where p: "p = (lang, v)" by (cases p)
  show ?case
    by (cases v; cases "languageOrder_truthy lo lang") (simp_all add: p Cons.IH)
qed

lemma flatten_payload_returns:
  "data \<noteq> PNull \<Longrightarrow> \<exists>lo. flatten_payload data = Inr (lo, payload_records data)"
proof (cases data)
  case (PObject props)
  obtain lo i repos where f: "foldl flatten_step (Map.empty, 0, []) props = (lo, i, repos)"
    by (cases "foldl flatten_step (Map.empty, 0, []) props") auto
  have "repos = payload_records data"
    using foldl_flatten_step_repos [of Map.empty 0 "[]" props] f
    by (simp add: payload_records_def PObject)
  then show ?thesis by (simp add: flatten_payload_def PObject f)
qed (simp_all add: flatten_payload_def payload_records_def)

lemma valid_entries_Cons:
  "valid_entries (e # es) =
     (case e of None \<Rightarrow> valid_entries es
      | Some r \<Rightarrow> if is_valid (Some r) then r # valid_entries es else valid_entries es)"
  by (cases e) (simp_all add: valid_entries_def List.map_filter_simps is_valid_def)

lemma set_valid_entries:
  "set (valid_entries es) = {r. Some r \<in> set es \<and> is_valid (Some r)}"
proof (induction es)
  case Nil
  show ?case by (simp add: valid_entries_def List.map_filter_simps)
next
  case (Cons e es)
  then show ?case by (cases e) (auto simp: valid_entries_Cons)
qed

lemma length_valid_entries: "length (valid_entries es) = length (filter is_valid es)"
proof (induction es)
  case Nil
  show ?case by (simp add: valid_entries_def List.map_filter_simps)
next
  case (Cons e es)
  then show ?case by (cases e) (auto simp: valid_entries_Cons is_valid_def)
qed

lemma normalize_truthy:
  "repo_id (normalize_repo now i raw) \<noteq> 0 \<longleftrightarrow> truthy_num (raw_id raw)"
  "name (normalize_repo now i raw) \<noteq> [] \<longleftrightarrow> truthy_str (raw_name raw)"
  by (simp_all add: normalize_repo_def truthy_num_def truthy_str_def split: option.splits)

lemma normalize_all_nth:
  "i < length vs \<Longrightarrow> normalize_all now vs ! i = normalize_repo now i (vs ! i)"
  by (simp add: normalize_all_def nth_enumerate_eq)

lemma length_normalize_all: "length (normalize_all now vs) = length vs"
  by (simp add: normalize_all_def)

lemma set_normalize_all:
  "set (normalize_all now vs) = {normalize_repo now i (vs ! i) | i. i < length vs}"
proof -
  have "set (normalize_all now vs) = {normalize_all now vs ! i | i. i < length vs}"
    by (simp add: set_conv_nth length_normalize_all)
  also have "\<dots> = {normalize_repo now i (vs ! i) | i. i < length vs}"
    using normalize_all_nth [of _ vs now] by metis
  finally show ?thesis .
qed

lemma processRepositoryData_returns:
  "data \<noteq> PNull \<Longrightarrow>
   \<exists>lo. processRepositoryData now data =
     Inr (lo, js_sort by_stars_desc (normalize_all now (valid_entries (payload_records data))))"
  using flatten_payload_returns [of data] by (auto simp: processRepositoryData_def)

lemma processRepositoryData_PNull: "processRepositoryData now PNull = Inl TypeError"
  by (simp add: processRepositoryData_def flatten_payload_def)

lemma by_stars_desc_sorted:
  "sorted_wrt (\<lambda>a b. stargazers_count b \<le> stargazers_count a) (js_sort by_stars_desc xs)"
proof -
  have "sorted_wrt (\<lambda>a b. by_stars_desc a b \<le> 0) (js_sort by_stars_desc xs)"
    by (rule sorted_js_sort) (auto simp: by_stars_desc_def)
  then show ?thesis by (simp add: by_stars_desc_def)
qed

lemma originalIndex_normalize_all:
  "map originalIndex (normalize_all now vs) = [0..<length vs]"
  by (rule nth_equalityI) (simp_all add: length_normalize_all normalize_all_nth normalize_repo_def)

lemma recent_likes_restores:
  assumes idx: "map originalIndex L = [0..<length L]" and perm: "mset xs = mset L"
  shows "js_sort (comparison collate ''recent-likes'') xs = L"
proof -
  let ?cmp = "comparison collate ''recent-likes''"
  let ?S = "js_sort ?cmp xs"
  have cmp: "?cmp a b \<le> 0 \<longleftrightarrow> originalIndex a \<le> originalIndex b" for a b
    by (simp add: comparison_def)
  have "sorted_wrt (\<lambda>a b. ?cmp a b \<le> 0) ?S"
    by (rule sorted_js_sort) (auto simp: cmp)
  then have sortedS: "sorted (map originalIndex ?S)"
    by (simp add: cmp sorted_map)
  have msetS: "mset ?S = mset L" using perm by (simp add: mset_js_sort)
  then have mset_map: "mset (map originalIndex ?S) = mset (map originalIndex L)"
    by (metis mset_map)
  have dL: "distinct (map originalIndex L)" and sL: "sorted (map originalIndex L)"
    by (simp_all add: idx)
  have dS: "distinct (map originalIndex ?S)"
    using mset_map dL by (metis mset_eq_imp_distinct_iff)
  have "set (map originalIndex ?S) = set (map originalIndex L)"
    using mset_map by (metis set_mset_mset)
  with sortedS dS sL dL have keys: "map originalIndex ?S = map originalIndex L"
    by (rule sorted_distinct_set_unique)
  have "set ?S = set L" using msetS by (metis set_mset_mset)
  moreover have "inj_on originalIndex (set L)" using dL by (simp add: distinct_map)
  ultimately have "inj_on originalIndex (set ?S \<union> set L)" by simp
  with keys show ?thesis by (simp add: inj_on_map_eq_map)
qed

lemmas example_defs = ex_x_def ex_y_def ex_nameless_def

lemmas normalizer_eval =
  processRepositoryData_def flatten_payload_def valid_entries_def List.map_filter_simps
  is_valid_def truthy_num_def truthy_str_def normalize_all_def enumerate_eq_zip
  normalize_repo_def js_sort_def by_stars_desc_def

lemma processRepositoryData_primitive:
  "processRepositoryData now (PString s) = Inr (Map.empty, [])"
  "processRepositoryData now (PNumber n) = Inr (Map.empty, [])"
  "processRepositoryData now (PBool b) = Inr (Map.empty, [])"
  by (simp_all add: normalizer_eval)

section \<open>Claims about the normalizer\<close>

text \<open>
  Claim C1 (normalization drop rule). For every payload on which
  \<^verbatim>\<open>processRepositoryData\<close> returns, that is every payload but \<^verbatim>\<open>null\<close>:
  every entry of the output has a truthy id and a truthy name; a record of the payload
  is the source of an output entry exactly when its id and its name are both truthy;
  and the output has one entry per valid record.
\<close>

theorem normalization_drop_rule:
  "data \<noteq> PNull \<Longrightarrow>
   \<exists>lo out. processRepositoryData now data = Inr (lo, out) \<and>
     (\<forall>r \<in> set out. repo_id r \<noteq> 0 \<and> name r \<noteq> []) \<and>
     (\<forall>raw. Some raw \<in> set (payload_records data) \<longrightarrow>
        ((\<exists>r \<in> set out. \<exists>i. r = normalize_repo now i raw) \<longleftrightarrow>
         truthy_num (raw_id raw) \<and> truthy_str (raw_name raw))) \<and>
     length out = length (filter is_valid (payload_records data))"
proof -
  assume "data \<noteq> PNull"
  define V where "V = valid_entries (payload_records data)"
  define out where "out = js_sort by_stars_desc (normalize_all now V)"
  from \<open>data \<noteq> PNull\<close> obtain lo where run: "processRepositoryData now data = Inr (lo, out)"
    using processRepositoryData_returns [of data now] by (auto simp: out_def V_def)
  have set_out: "set out = {normalize_repo now i (V ! i) | i. i < length V}"
    by (simp add: out_def set_js_sort set_normalize_all)
  have V_valid: "is_valid (Some raw)" if "raw \<in> set V" for raw
    using that by (simp add: V_def set_valid_entries)
  have truthy: "repo_id r \<noteq> 0 \<and> name r \<noteq> []" if "r \<in> set out" for r
  proof -
    from that obtain i where i: "i < length V" "r = normalize_repo now i (V ! i)"
      by (auto simp: set_out)
    then have "is_valid (Some (V ! i))" using V_valid by simp
    then show ?thesis by (simp add: i normalize_truthy is_valid_def)
  qed
  have appears: "(\<exists>r \<in> set out. \<exists>i. r = normalize_repo now i raw) \<longleftrightarrow>
      truthy_num (raw_id raw) \<and> truthy_str (raw_name raw)"
    if "Some raw \<in> set (payload_records data)" for raw
  proof
    assume "\<exists>r \<in> set out. \<exists>i. r = normalize_repo now i raw"
    then obtain r i where "r \<in> set out" "r = normalize_repo now i raw" by blast
    with truthy [of r] show "truthy_num (raw_id raw) \<and> truthy_str (raw_name raw)"
      by (simp add: normalize_truthy)
  next
    assume "truthy_num (raw_id raw) \<and> truthy_str (raw_name raw)"
    with that have "raw \<in> set V" by (simp add: V_def set_valid_entries is_valid_def)
    then obtain i where "i < length V" "V ! i = raw" by (auto simp: in_set_conv_nth)
    then have "normalize_repo now i raw \<in> set out" by (auto simp: set_out)
    then show "\<exists>r \<in> set out. \<exists>i. r = normalize_repo now i raw" by blast
  qed
  have "length out = length (filter is_valid (payload_records data))"
    by (simp add: out_def length_js_sort length_normalize_all V_def length_valid_entries)
  with run truthy appears show ?thesis by blast
qed

theorem normalization_drop_rule_witness:
  "PArray [Some ex_x, None, Some ex_nameless, Some ex_y] \<noteq> PNull \<and>
   (\<exists>lo out. processRepositoryData 0 (PArray [Some ex_x, None, Some ex_nameless, Some ex_y]) =
        Inr (lo, out) \<and>
      map name out = [''y'', ''x''] \<and> length out = 2)"
proof -
  have ne: "PArray [Some ex_x, None, Some ex_nameless, Some ex_y] \<noteq> PNull" by simp
  from normalization_drop_rule [OF ne, of 0]
  obtain lo out where
    run: "processRepositoryData 0 (PArray [Some ex_x, None, Some ex_nameless, Some ex_y]) =
            Inr (lo, out)"
    and len: "length out = length (filter is_valid (payload_records
               (PArray [Some ex_x, None, Some ex_nameless, Some ex_y])))"
    by blast
  have "map name out = [''y'', ''x'']"
    using run by (auto simp: normalizer_eval example_defs)
  moreover have "length out = 2"
    using len by (simp add: payload_records_def is_valid_def truthy_num_def truthy_str_def example_defs)
  ultimately show ?thesis using run by (intro conjI exI [of _ lo] exI [of _ out]) simp_all
qed

text \<open>
  Claim C2 (load-time ordering), as amended. \<^verbatim>\<open>originalIndex\<close> is assigned in the
  \<^verbatim>\<open>map\<close> callback, in the order of the valid input records, and the sort by
  descending star count runs afterwards. The returned list is in descending star
  order; sorting it by ascending \<^verbatim>\<open>originalIndex\<close> (the \<^verbatim>\<open>'recent-likes'\<close>
  comparator) gives back the input order of the valid records.
\<close>

theorem load_time_ordering:
  "processRepositoryData now data = Inr (lo, out) \<Longrightarrow>
   sorted_wrt (\<lambda>a b. stargazers_count b \<le> stargazers_count a) out \<and>
   map originalIndex (normalize_all now (valid_entries (payload_records data))) =
     [0..<length out] \<and>
   js_sort (comparison collate ''recent-likes'') out =
     normalize_all now (valid_entries (payload_records data))"
proof -
  assume run: "processRepositoryData now data = Inr (lo, out)"
  let ?L = "normalize_all now (valid_entries (payload_records data))"
  from run have "data \<noteq> PNull" by (auto simp: processRepositoryData_PNull)
  with run have out: "out = js_sort by_stars_desc ?L"
    using processRepositoryData_returns [of data now] by auto
  have len: "length out = length (valid_entries (payload_records data))"
    by (simp add: out length_js_sort length_normalize_all)
  have idx: "map originalIndex ?L = [0..<length ?L]"
    by (simp add: originalIndex_normalize_all length_normalize_all)
  have "js_sort (comparison collate ''recent-likes'') out = ?L"
    using idx by (rule recent_likes_restores) (simp add: out mset_js_sort)
  moreover have "sorted_wrt (\<lambda>a b. stargazers_count b \<le> stargazers_count a) out"
    unfolding out by (rule by_stars_desc_sorted)
  ultimately show ?thesis using idx by (simp add: len length_normalize_all)
qed

theorem load_time_ordering_witness:
  "\<exists>lo out. processRepositoryData 0 (PArray [Some ex_x, Some ex_y]) = Inr (lo, out) \<and>
     map stargazers_count out = [50, 5] \<and>
     map name (js_sort (comparison toLowerCase ''recent-likes'') out) = [''x'', ''y'']"
proof -
  obtain lo out where run: "processRepositoryData 0 (PArray [Some ex_x, Some ex_y]) = Inr (lo, out)"
    by (simp add: normalizer_eval)
  have "map stargazers_count out = [50, 5]"
    using run by (auto simp: normalizer_eval example_defs)
  moreover have "map name (js_sort (comparison toLowerCase ''recent-likes'') out) = [''x'', ''y'']"
    using load_time_ordering [OF run, of toLowerCase]
    by (simp add: payload_records_def normalizer_eval example_defs)
  ultimately show ?thesis using run by (intro exI [of _ lo] exI [of _ out]) simp
qed

text \<open>
  The claim as first stated, that ascending \<^verbatim>\<open>originalIndex\<close> order coincides with
  descending star order for every loaded dataset, fails for the records \<open>x\<close> (5 stars)
  and \<open>y\<close> (50 stars) loaded in this order: \<open>y\<close> comes first in the output with
  \<^verbatim>\<open>originalIndex\<close> 1.
\<close>

theorem load_time_ordering_counterexample:
  "\<exists>lo out. processRepositoryData 0 (PArray [Some ex_x, Some ex_y]) = Inr (lo, out) \<and>
     map originalIndex out = [1, 0] \<and>
     map stargazers_count (js_sort (comparison toLowerCase ''recent-likes'') out) = [5, 50] \<and>
     \<not> sorted_wrt (\<lambda>a b. stargazers_count b \<le> stargazers_count a)
          (js_sort (comparison toLowerCase ''recent-likes'') out)"
  by (simp add: normalizer_eval example_defs comparison_def)

text \<open>
  Claim C5 (lenient parsing of malformed payloads) at the payload \<^verbatim>\<open>null\<close>:
  \<^verbatim>\<open>Array.isArray(null)\<close> is false and \<^verbatim>\<open>typeof null === 'object'\<close> is true, so
  \<^verbatim>\<open>Object.keys(null)\<close> is evaluated and throws. Strings, numbers and booleans
  give the empty list (\<open>processRepositoryData_primitive\<close>).
\<close>

theorem lenient_parsing_null: "processRepositoryData now PNull = Inl TypeError"
  by (simp add: processRepositoryData_def flatten_payload_def)

section \<open>Properties of the search pass\<close>

lemmas search_examples = ex_react_def ex_vue_def ex_orphan_def ex_heap_def

lemmas lowercase_eval = toLowerCase_def toLowerCase_char_def char_of_def bit_0

lemmas search_eval =
  performAdvancedSearch_def search_terms_def is_space_def lowercase_eval hasAllTerms_def
  term_score_def term_points_def normalize_repo_def createSearchText_def search_parts_def opt_part_def
  owner_login_def js_sort_def by_searchScore_desc_def score_or_0_def language_filter_def

lemma term_points_searchScore [simp]:
  "term_points (r\<lparr>searchScore := x\<rparr>) l t = term_points r l t"
  by (simp add: term_points_def)

lemma term_score_searchScore [simp]:
  "term_score (r\<lparr>searchScore := x\<rparr>) t = term_score r t"
  by (simp add: term_score_def split: option.splits)

lemma score_terms_searchScore [simp]:
  "score_terms (r\<lparr>searchScore := x\<rparr>) ts s = score_terms r ts s"
  by (induction ts arbitrary: s) (simp_all split: sum.splits)

lemma hasAllTerms_searchScore [simp]:
  "hasAllTerms (r\<lparr>searchScore := x\<rparr>) ts = hasAllTerms r ts"
  by (simp add: hasAllTerms_def)

lemma relevance_searchScore [simp]: "relevance (r\<lparr>searchScore := x\<rparr>) ts = relevance r ts"
  by (simp add: relevance_def)

lemma scorable_searchScore [simp]: "scorable (r\<lparr>searchScore := x\<rparr>) ts = scorable r ts"
  by (simp add: scorable_def)

lemma scorable_Inr: "scorable r ts \<Longrightarrow> score_terms r ts 0 = Inr (relevance r ts)"
  by (simp add: scorable_def relevance_def split: sum.splits)

lemma not_scorable_Inl: "\<not> scorable r ts \<Longrightarrow> score_terms r ts 0 = Inl TypeError"
  by (cases "score_terms r ts 0") (auto simp: scorable_def intro: error.exhaust)

text \<open>The pass when no callback throws: the store and the kept references in closed form.\<close>

lemma search_filter_returns:
  "\<forall>a \<in> set refs. hasAllTerms (h a) ts \<longrightarrow> scorable (h a) ts \<Longrightarrow>
   search_filter ts h refs = (rescored ts h refs, Inr (filter (retained ts h) refs))"
proof (induction refs arbitrary: h)
  case Nil
  show ?case by (simp add: rescored_def)
next
  case (Cons a refs)
  show ?case
  proof (cases "hasAllTerms (h a) ts")
    case False
    have "rescored ts h (a # refs) = rescored ts h refs"
      using False by (auto simp: rescored_def)
    with False Cons show ?thesis by (simp add: retained_def)
  next
    case True
    with Cons.prems have sc: "score_terms (h a) ts 0 = Inr (relevance (h a) ts)"
      by (simp add: scorable_Inr)
    let ?h1 = "h(a := (h a)\<lparr>searchScore := Some (relevance (h a) ts)\<rparr>)"
    have pre: "\<forall>b \<in> set refs. hasAllTerms (?h1 b) ts \<longrightarrow> scorable (?h1 b) ts"
      using Cons.prems by simp
    have kept: "filter (retained ts ?h1) refs = filter (retained ts h) refs"
      by (rule filter_cong) (simp_all add: retained_def)
    have store: "rescored ts ?h1 refs = rescored ts h (a # refs)"
      using True by (auto simp: rescored_def fun_eq_iff)
    have "search_filter ts ?h1 refs = (rescored ts ?h1 refs, Inr (filter (retained ts ?h1) refs))"
      by (rule Cons.IH [OF pre])
    then have rest: "search_filter ts ?h1 refs =
        (rescored ts h (a # refs), Inr (filter (retained ts h) refs))"
      by (simp only: kept store)
    have "search_filter ts h (a # refs) =
        (case search_filter ts ?h1 refs of
           (h', Inl e) \<Rightarrow> (h', Inl e)
         | (h', Inr kept) \<Rightarrow>
             (h', Inr (if relevance (h a) ts > 0 then a # kept else kept)))"
      using True sc by simp
    also have "\<dots> = (rescored ts h (a # refs), Inr (filter (retained ts h) (a # refs)))"
      unfolding rest using True by (simp add: retained_def)
    finally show ?thesis .
  qed
qed

text \<open>The pass when some callback throws.\<close>

lemma search_filter_throws:
  "\<exists>a \<in> set refs. hasAllTerms (h a) ts \<and> \<not> scorable (h a) ts \<Longrightarrow>
   snd (search_filter ts h refs) = Inl TypeError"
proof (induction refs arbitrary: h)
  case Nil
  then show ?case by simp
next
  case (Cons a refs)
  show ?case
  proof (cases "hasAllTerms (h a) ts")
    case False
    with Cons show ?thesis by auto
  next
    case True
    show ?thesis
    proof (cases "scorable (h a) ts")
      case False
      with True show ?thesis by (simp add: not_scorable_Inl)
    next
      case sc: True
      let ?h1 = "h(a := (h a)\<lparr>searchScore := Some (relevance (h a) ts)\<rparr>)"
      from Cons.prems sc obtain b where b: "b \<in> set refs" "hasAllTerms (h b) ts" "\<not> scorable (h b) ts"
        by auto
      then have "\<exists>b \<in> set refs. hasAllTerms (?h1 b) ts \<and> \<not> scorable (?h1 b) ts"
        by (intro bexI [of _ b]) auto
      then have rest: "snd (search_filter ts ?h1 refs) = Inl TypeError"
        by (rule Cons.IH)
      have "search_filter ts h (a # refs) =
          (case search_filter ts ?h1 refs of
             (h', Inl e) \<Rightarrow> (h', Inl e)
           | (h', Inr kept) \<Rightarrow>
               (h', Inr (if relevance (h a) ts > 0 then a # kept else kept)))"
        using True sc by (simp add: scorable_Inr)
      then show ?thesis
        using rest by (cases "search_filter ts ?h1 refs") (auto split: sum.splits)
    qed
  qed
qed

lemma unchanged_refl: "unchanged_except_searchScore r r"
  by (simp add: unchanged_except_searchScore_def)

lemma unchanged_update: "unchanged_except_searchScore r (r\<lparr>searchScore := x\<rparr>)"
  by (simp add: unchanged_except_searchScore_def)

lemma unchanged_trans:
  "unchanged_except_searchScore r r' \<Longrightarrow> unchanged_except_searchScore r' r'' \<Longrightarrow>
   unchanged_except_searchScore r r''"
  by (cases r; cases r'; cases r'') (simp add: unchanged_except_searchScore_def)

lemma search_filter_frame:
  "unchanged_except_searchScore (h a) (fst (search_filter ts h refs) a)"
proof (induction refs arbitrary: h)
  case Nil
  show ?case by (simp add: unchanged_refl)
next
  case (Cons b refs)
  show ?case
  proof (cases "hasAllTerms (h b) ts")
    case False
    then show ?thesis using Cons.IH [of h] by simp
  next
    case True
    show ?thesis
    proof (cases "score_terms (h b) ts 0")
      case (Inl e)
      with True show ?thesis by (simp add: unchanged_refl)
    next
      case (Inr s)
      let ?h1 = "h(b := (h b)\<lparr>searchScore := Some s\<rparr>)"
      have "unchanged_except_searchScore (h a) (?h1 a)"
        by (simp add: unchanged_refl unchanged_update)
      moreover have "unchanged_except_searchScore (?h1 a) (fst (search_filter ts ?h1 refs) a)"
        by (rule Cons.IH)
      ultimately have "unchanged_except_searchScore (h a) (fst (search_filter ts ?h1 refs) a)"
        by (rule unchanged_trans)
      moreover have "fst (search_filter ts h (b # refs)) = fst (search_filter ts ?h1 refs)"
        using True Inr by (cases "search_filter ts ?h1 refs") (auto split: sum.splits)
      ultimately show ?thesis by simp
    qed
  qed
qed

lemma search_filter_untouched:
  "a \<notin> set refs \<or> \<not> hasAllTerms (h a) ts \<Longrightarrow>
   searchScore (fst (search_filter ts h refs) a) = searchScore (h a)"
proof (induction refs arbitrary: h)
  case Nil
  show ?case by simp
next
  case (Cons b refs)
  show ?case
  proof (cases "hasAllTerms (h b) ts")
    case False
    then show ?thesis using Cons.IH [of h] Cons.prems by auto
  next
    case True
    show ?thesis
    proof (cases "score_terms (h b) ts 0")
      case (Inl e)
      with True show ?thesis by simp
    next
      case (Inr s)
      let ?h1 = "h(b := (h b)\<lparr>searchScore := Some s\<rparr>)"
      from Cons.prems True have ab: "a \<noteq> b" by auto
      with Cons.prems have "a \<notin> set refs \<or> \<not> hasAllTerms (?h1 a) ts" by auto
      then have "searchScore (fst (search_filter ts ?h1 refs) a) = searchScore (?h1 a)"
        by (rule Cons.IH)
      moreover have "fst (search_filter ts h (b # refs)) = fst (search_filter ts ?h1 refs)"
        using True Inr by (cases "search_filter ts ?h1 refs") (auto split: sum.splits)
      ultimately show ?thesis using ab by simp
    qed
  qed
qed

text \<open>What a returning search pass did, in closed form.\<close>

lemma performAdvancedSearch_returns:
  assumes "query \<noteq> []"
    and "performAdvancedSearch h refs query = (h', Inr out)"
  shows "\<forall>a \<in> set refs. hasAllTerms (h a) (search_terms query) \<longrightarrow>
           scorable (h a) (search_terms query)"
    and "h' = rescored (search_terms query) h refs"
    and "out = js_sort (by_searchScore_desc h') (filter (retained (search_terms query) h) refs)"
proof -
  let ?ts = "search_terms query"
  show ok: "\<forall>a \<in> set refs. hasAllTerms (h a) ?ts \<longrightarrow> scorable (h a) ?ts"
  proof (rule ccontr)
    assume "\<not> ?thesis"
    then have "snd (search_filter ?ts h refs) = Inl TypeError"
      by (intro search_filter_throws) blast
    with assms show False
      by (auto simp: performAdvancedSearch_def split: prod.splits sum.splits)
  qed
  have "search_filter ?ts h refs = (rescored ?ts h refs, Inr (filter (retained ?ts h) refs))"
    using ok by (rule search_filter_returns)
  with assms show "h' = rescored ?ts h refs"
    and "out = js_sort (by_searchScore_desc h') (filter (retained ?ts h) refs)"
    by (auto simp: performAdvancedSearch_def)
qed

lemma performAdvancedSearch_frame:
  "unchanged_except_searchScore (h a) (fst (performAdvancedSearch h refs query) a)"
proof (cases "query = []")
  case True
  then show ?thesis by (simp add: performAdvancedSearch_def unchanged_refl)
next
  case False
  have "fst (performAdvancedSearch h refs query) =
        fst (search_filter (search_terms query) h refs)"
    using False by (auto simp: performAdvancedSearch_def split: prod.splits sum.splits)
  then show ?thesis by (simp add: search_filter_frame)
qed

lemma performAdvancedSearch_untouched:
  assumes "a \<notin> set refs \<or> query = [] \<or> \<not> hasAllTerms (h a) (search_terms query)"
  shows "searchScore (fst (performAdvancedSearch h refs query) a) = searchScore (h a)"
proof (cases "query = []")
  case True
  then show ?thesis by (simp add: performAdvancedSearch_def)
next
  case False
  have "fst (performAdvancedSearch h refs query) =
        fst (search_filter (search_terms query) h refs)"
    using False by (auto simp: performAdvancedSearch_def split: prod.splits sum.splits)
  then show ?thesis using assms False by (simp add: search_filter_untouched)
qed

lemma rescored_searchScore:
  "a \<in> set refs \<Longrightarrow> hasAllTerms (h a) ts \<Longrightarrow>
   searchScore (rescored ts h refs a) = Some (relevance (h a) ts)"
  by (simp add: rescored_def)

subsection \<open>The search terms\<close>

text \<open>
  The terms the method computes with \<^verbatim>\<open>split(/\s+/)\<close> and the filter on the length
  are the white-space-separated words of the lowercased query.
\<close>

lemma ws_words_dropWhile_space: "ws_words (dropWhile is_space s) = ws_words s"
  by (induction s) auto

lemma ws_words_unfold:
  "ws_words s =
     (if takeWhile (\<lambda>x. \<not> is_space x) s = [] then []
      else [takeWhile (\<lambda>x. \<not> is_space x) s]) @
     ws_words (dropWhile (\<lambda>x. \<not> is_space x) s)"
  by (cases s) auto

lemma split_ws_pieces:
  "split_ws s \<noteq> [] \<and>
   hd (split_ws s) = takeWhile (\<lambda>x. \<not> is_space x) s \<and>
   filter (\<lambda>t. length t > 0) (tl (split_ws s)) =
     ws_words (dropWhile (\<lambda>x. \<not> is_space x) s)"
proof (induction s rule: split_ws.induct)
  case 1
  show ?case by simp
next
  case (2 c cs)
  show ?case
  proof (cases "is_space c")
    case True
    let ?r = "dropWhile is_space cs"
    from "2.IH"(1) [OF True] have ne: "split_ws ?r \<noteq> []"
      and h: "hd (split_ws ?r) = takeWhile (\<lambda>x. \<not> is_space x) ?r"
      and t: "filter (\<lambda>t. length t > 0) (tl (split_ws ?r)) =
              ws_words (dropWhile (\<lambda>x. \<not> is_space x) ?r)"
      by simp_all
    from ne obtain p ps where ps: "split_ws ?r = p # ps" by (cases "split_ws ?r") auto
    with h t have "filter (\<lambda>t. length t > 0) (split_ws ?r) =
        (if takeWhile (\<lambda>x. \<not> is_space x) ?r = [] then []
         else [takeWhile (\<lambda>x. \<not> is_space x) ?r]) @
        ws_words (dropWhile (\<lambda>x. \<not> is_space x) ?r)"
      by auto
    then have "filter (\<lambda>t. length t > 0) (split_ws ?r) = ws_words ?r"
      by (simp only: ws_words_unfold [symmetric])
    then have "filter (\<lambda>t. length t > 0) (split_ws ?r) = ws_words cs"
      by (simp only: ws_words_dropWhile_space)
    then show ?thesis using True by simp
  next
    case False
    from "2.IH"(2) [OF False] have ne: "split_ws cs \<noteq> []"
      and h: "hd (split_ws cs) = takeWhile (\<lambda>x. \<not> is_space x) cs"
      and t: "filter (\<lambda>t. length t > 0) (tl (split_ws cs)) =
              ws_words (dropWhile (\<lambda>x. \<not> is_space x) cs)"
      by simp_all
    from ne obtain p ps where ps: "split_ws cs = p # ps" by (cases "split_ws cs") auto
    with h t False show ?thesis by simp
  qed
qed

lemma filter_split_ws: "filter (\<lambda>t. length t > 0) (split_ws s) = ws_words s"
proof -
  from split_ws_pieces [of s] have ne: "split_ws s \<noteq> []"
    and h: "hd (split_ws s) = takeWhile (\<lambda>x. \<not> is_space x) s"
    and t: "filter (\<lambda>t. length t > 0) (tl (split_ws s)) =
            ws_words (dropWhile (\<lambda>x. \<not> is_space x) s)"
    by simp_all
  from ne obtain p ps where ps: "split_ws s = p # ps" by (cases "split_ws s") auto
  with h t have "filter (\<lambda>t. length t > 0) (split_ws s) =
      (if takeWhile (\<lambda>x. \<not> is_space x) s = [] then []
       else [takeWhile (\<lambda>x. \<not> is_space x) s]) @
      ws_words (dropWhile (\<lambda>x. \<not> is_space x) s)"
    by auto
  then show ?thesis by (simp only: ws_words_unfold [symmetric])
qed

lemma search_terms_words: "search_terms query = ws_words (toLowerCase query)"
  unfolding search_terms_def by (rule filter_split_ws)

subsection \<open>A search that returns\<close>

text \<open>
  When a search with a non-empty term returns, every reference of the result comes from
  the input and its search text contains every white-space-separated word of the
  lowercased query; it carries the accumulated score; the result is in descending order
  of score; and entries of equal score are in their input order.
\<close>

lemma performAdvancedSearch_and_semantics:
  assumes "query \<noteq> []"
    and "performAdvancedSearch h repos query = (h', Inr out)"
  shows "(\<forall>a \<in> set out. a \<in> set repos \<and>
            (\<forall>t \<in> set (ws_words (toLowerCase query)). str_includes (searchText (h a)) t)) \<and>
         (\<forall>a \<in> set out. searchScore (h' a) = Some (relevance (h a) (search_terms query))) \<and>
         sorted_wrt (\<lambda>a b. relevance (h b) (search_terms query)
                           \<le> relevance (h a) (search_terms query)) out \<and>
         (\<forall>k. filter (\<lambda>a. relevance (h a) (search_terms query) = k) out =
              filter (\<lambda>a. relevance (h a) (search_terms query) = k)
                (filter (\<lambda>a. a \<in> set out) repos))"
proof -
  let ?ts = "search_terms query"
  let ?kept = "filter (retained ?ts h) repos"
  let ?cmp = "by_searchScore_desc h'"
  note r = performAdvancedSearch_returns [OF assms]
  have out: "out = js_sort ?cmp ?kept" by (rule r(3))
  have set_out: "set out = {a \<in> set repos. retained ?ts h a}"
    by (simp add: out set_js_sort)
  have score: "searchScore (h' a) = Some (relevance (h a) ?ts)" if "a \<in> set out" for a
    using that set_out by (simp add: r(2) rescored_searchScore retained_def)
  have so0: "score_or_0 (searchScore (h' a)) = relevance (h a) ?ts" if "a \<in> set out" for a
    using score [OF that] by (simp add: score_or_0_def)
  have and_terms: "a \<in> set repos \<and> (\<forall>t \<in> set ?ts. str_includes (searchText (h a)) t)"
    if "a \<in> set out" for a
    using that set_out by (auto simp: retained_def hasAllTerms_def list_all_iff)
  have and_sem: "a \<in> set repos \<and>
      (\<forall>t \<in> set (ws_words (toLowerCase query)). str_includes (searchText (h a)) t)"
    if "a \<in> set out" for a
    using and_terms [OF that] by (simp add: search_terms_words)
  have "sorted_wrt (\<lambda>a b. ?cmp a b \<le> 0) out"
    unfolding out by (rule sorted_js_sort) (auto simp: by_searchScore_desc_def)
  then have sorted: "sorted_wrt (\<lambda>a b. relevance (h b) ?ts \<le> relevance (h a) ?ts) out"
    by (rule sorted_wrt_mono_rel [rotated]) (simp add: by_searchScore_desc_def so0)
  have kept: "filter (\<lambda>a. a \<in> set out) repos = ?kept"
    by (rule filter_cong) (auto simp: set_out)
  have stable: "filter (\<lambda>a. relevance (h a) ?ts = k) out =
      filter (\<lambda>a. relevance (h a) ?ts = k) (filter (\<lambda>a. a \<in> set out) repos)" for k
  proof -
    have "filter (\<lambda>a. relevance (h a) ?ts = k) out =
          filter (\<lambda>a. score_or_0 (searchScore (h' a)) = k) out"
      by (rule filter_cong) (simp_all add: so0)
    also have "\<dots> = filter (\<lambda>a. score_or_0 (searchScore (h' a)) = k) ?kept"
      unfolding out by (rule filter_js_sort) (simp add: by_searchScore_desc_def)
    also have "\<dots> = filter (\<lambda>a. relevance (h a) ?ts = k) ?kept"
      by (rule filter_cong) (simp_all add: so0 set_out)
    finally show ?thesis by (simp only: kept)
  qed
  from and_sem score sorted stable show ?thesis by blast
qed

text \<open>
  Two runs on the entries \<open>react\<close> and \<open>Vue\<close>. Both contain \<^verbatim>\<open>frontend\<close>:
  \<open>Vue\<close> scores 13 and comes first, \<open>react\<close> scores 8. Only \<open>react\<close> contains
  both \<^verbatim>\<open>frontend\<close> and \<^verbatim>\<open>ui\<close>.
\<close>

lemma performAdvancedSearch_runs:
  "snd (performAdvancedSearch ex_heap [0, 1] ''Frontend'') = Inr [1, 0] \<and>
   map (\<lambda>a. relevance (ex_heap a) (search_terms ''Frontend'')) [1, 0] = [13, 8] \<and>
   ws_words (toLowerCase ''Frontend  UI'') = [''frontend'', ''ui''] \<and>
   search_terms ''Frontend  UI'' = [''frontend'', ''ui''] \<and>
   map (\<lambda>a. str_includes (searchText (ex_heap a)) ''frontend'') [0, 1] = [True, True] \<and>
   map (\<lambda>a. str_includes (searchText (ex_heap a)) ''ui'') [0, 1] = [True, False] \<and>
   snd (performAdvancedSearch ex_heap [0, 1] ''Frontend  UI'') = Inr [0]"
  by (simp add: search_eval search_examples relevance_def)

subsection \<open>Substring search\<close>

lemma starts_with_iff: "starts_with s t \<longleftrightarrow> (\<exists>ss. s = t @ ss)"
  by (induction s t rule: starts_with.induct) auto

lemma str_includes_iff: "str_includes s t \<longleftrightarrow> (\<exists>ps ss. s = ps @ t @ ss)"
proof (induction s)
  case Nil
  show ?case by auto
next
  case (Cons c s)
  show ?case
  proof
    assume "str_includes (c # s) t"
    then consider "starts_with (c # s) t" | "str_includes s t" by auto
    then show "\<exists>ps ss. c # s = ps @ t @ ss"
    proof cases
      case 1
      then obtain ss where "c # s = t @ ss" by (auto simp: starts_with_iff)
      then have "c # s = [] @ t @ ss" by simp
      then show ?thesis by blast
    next
      case 2
      then obtain ps ss where "s = ps @ t @ ss" using Cons.IH by blast
      then have "c # s = (c # ps) @ t @ ss" by simp
      then show ?thesis by blast
    qed
  next
    assume "\<exists>ps ss. c # s = ps @ t @ ss"
    then obtain ps ss where eq: "c # s = ps @ t @ ss" by blast
    show "str_includes (c # s) t"
    proof (cases ps)
      case Nil
      with eq have "starts_with (c # s) t" by (auto simp: starts_with_iff)
      then show ?thesis by simp
    next
      case (Cons d ps')
      with eq have "s = ps' @ t @ ss" by simp
      then have "str_includes s t" using Cons.IH by blast
      then show ?thesis by simp
    qed
  qed
qed

lemma str_includes_separator:
  assumes "str_includes (xs @ c # ys) t" and "c \<notin> set t"
  shows "str_includes xs t \<or> str_includes ys t"
proof -
  from assms obtain ps ss where eq: "xs @ c # ys = ps @ t @ ss"
    by (auto simp: str_includes_iff)
  then consider us where "xs = ps @ us" "us @ c # ys = t @ ss"
    | us where "xs @ us = ps" "c # ys = us @ t @ ss"
    by (auto simp: append_eq_append_conv2)
  then show ?thesis
  proof cases
    case 1
    from 1(2) consider vs where "us = t @ vs" | vs where "us @ vs = t" "c # ys = vs @ ss"
      by (auto simp: append_eq_append_conv2)
    then show ?thesis
    proof cases
      case 1
      with \<open>xs = ps @ us\<close> have "xs = ps @ t @ vs" by simp
      then show ?thesis by (auto simp: str_includes_iff)
    next
      case 2
      show ?thesis
      proof (cases vs)
        case Nil
        with 2 \<open>xs = ps @ us\<close> have "xs = ps @ t @ []" by simp
        then show ?thesis unfolding str_includes_iff by blast
      next
        case (Cons d vs')
        with 2 have "c \<in> set t" by auto
        with assms show ?thesis by simp
      qed
    qed
  next
    case 2
    show ?thesis
    proof (cases us)
      case Nil
      with 2 have t: "c # ys = t @ ss" by simp
      show ?thesis
      proof (cases t)
        case Nil
        then have "xs = xs @ t @ []" by simp
        then show ?thesis unfolding str_includes_iff by blast
      next
        case (Cons d t')
        with t have "c \<in> set t" by auto
        with assms show ?thesis by simp
      qed
    next
      case (Cons d us')
      with 2 have "ys = us' @ t @ ss" by simp
      then show ?thesis by (auto simp: str_includes_iff)
    qed
  qed
qed

lemma str_includes_join_space:
  assumes "CHR '' '' \<notin> set t" and "t \<noteq> []"
  shows "str_includes (join_space ps) t \<Longrightarrow> \<exists>p \<in> set ps. str_includes p t"
proof (induction ps rule: join_space.induct)
  case 1
  with assms show ?case by simp
next
  case (2 p)
  then show ?case by simp
next
  case (3 p q ps)
  from "3.prems" have "str_includes (p @ CHR '' '' # join_space (q # ps)) t" by simp
  then have "str_includes p t \<or> str_includes (join_space (q # ps)) t"
    using assms(1) by (rule str_includes_separator)
  with "3.IH" show ?case by auto
qed

lemma toLowerCase_join_space:
  "toLowerCase (join_space ps) = join_space (map toLowerCase ps)"
  by (induction ps rule: join_space.induct)
     (simp_all add: toLowerCase_def toLowerCase_char_def)

lemma split_ws_no_space: "p \<in> set (split_ws s) \<Longrightarrow> c \<in> set p \<Longrightarrow> \<not> is_space c"
proof (induction s arbitrary: p rule: split_ws.induct)
  case 1
  then show ?case by simp
next
  case (2 d ds)
  show ?case
  proof (cases "is_space d")
    case True
    with 2 show ?thesis by auto
  next
    case False
    show ?thesis
    proof (cases "split_ws ds")
      case Nil
      with False 2 show ?thesis by auto
    next
      case (Cons q qs)
      with False "2.prems" have "p = d # q \<or> p \<in> set qs" by auto
      then show ?thesis
      proof
        assume "p = d # q"
        with "2.prems" have "c = d \<or> c \<in> set q" by auto
        then show ?thesis using False "2.IH"(2) [OF False, of q] Cons by auto
      next
        assume "p \<in> set qs"
        then show ?thesis using "2.IH"(2) [OF False, of p] "2.prems" Cons by auto
      qed
    qed
  qed
qed

lemma search_terms_shape:
  assumes "t \<in> set (search_terms query)"
  shows "t \<noteq> []" and "CHR '' '' \<notin> set t"
proof -
  from assms show "t \<noteq> []" by (auto simp: search_terms_def)
  from assms have "t \<in> set (split_ws (toLowerCase query))" by (auto simp: search_terms_def)
  then have "\<not> is_space c" if "c \<in> set t" for c using that by (rule split_ws_no_space)
  moreover have "is_space (CHR '' '')" by (simp add: is_space_def)
  ultimately show "CHR '' '' \<notin> set t" by blast
qed

subsection \<open>The relevance score\<close>

lemma score_terms_login:
  "owner_login (owner r) = Some l \<Longrightarrow>
   score_terms r ts s = Inr (s + sum_list (map (term_points r l) ts))"
proof (induction ts arbitrary: s)
  case Nil
  show ?case by simp
next
  case (Cons t ts)
  from Cons.prems have "term_score r t = Inr (term_points r l t)"
    by (auto simp: term_score_def owner_login_def split: option.splits)
  with Cons show ?case by simp
qed

lemma score_terms_no_login:
  "owner_login (owner r) = None \<Longrightarrow> ts \<noteq> [] \<Longrightarrow> score_terms r ts s = Inl TypeError"
  by (cases ts) (auto simp: term_score_def owner_login_def split: option.splits)

lemma term_points_nonneg: "0 \<le> term_points r l t"
  by (simp add: term_points_def)

lemma sum_list_member_le:
  fixes f :: "'a \<Rightarrow> int"
  assumes "\<And>x. 0 \<le> f x"
  shows "t \<in> set ts \<Longrightarrow> f t \<le> sum_list (map f ts)"
proof (induction ts)
  case Nil
  then show ?case by simp
next
  case (Cons u ts)
  have "0 \<le> sum_list (map f ts)" by (rule sum_list_nonneg) (auto simp: assms)
  with Cons assms [of u] show ?case by auto
qed

lemma searchText_normalize_repo:
  "searchText (normalize_repo now i raw) =
   join_space (map toLowerCase (filter (\<lambda>s. s \<noteq> []) (search_parts raw)))"
  by (simp add: normalize_repo_def createSearchText_def toLowerCase_join_space)

text \<open>
  A term found in a part of the search text other than the full name is found in one of
  the five scored fields.
\<close>

lemma term_points_pos_iff: "0 < term_points r l t \<longleftrightarrow> in_scored_field r l t"
  by (simp add: term_points_def in_scored_field_def)

lemma sum_list_pos_iff:
  fixes f :: "'a \<Rightarrow> int"
  assumes "\<And>x. 0 \<le> f x"
  shows "0 < sum_list (map f ts) \<longleftrightarrow> (\<exists>t \<in> set ts. 0 < f t)"
proof (induction ts)
  case Nil
  show ?case by simp
next
  case (Cons u ts)
  have "0 \<le> sum_list (map f ts)" by (rule sum_list_nonneg) (auto simp: assms)
  with Cons assms [of u] show ?case by auto
qed

text \<open>
  A term found in a part of the search text is found in one of the five scored fields
  or in the full name.
\<close>

lemma part_scores:
  assumes p: "p \<in> set (search_parts raw)"
    and hit: "str_includes (toLowerCase p) t"
    and t: "t \<noteq> []"
    and l: "owner_login (raw_owner raw) = Some l"
  shows "in_scored_field (normalize_repo now i raw) l t \<or>
         in_full_name (normalize_repo now i raw) t"
proof -
  let ?r = "normalize_repo now i raw"
  from hit t have pne: "p \<noteq> []" by (cases p) (auto simp: toLowerCase_def)
  from p consider
      "raw_name raw = Some p" | "raw_full_name raw = Some p" | "raw_description raw = Some p"
    | "raw_language raw = Some p" | ts where "raw_topics raw = Some ts" "p \<in> set ts"
    | "owner_login (raw_owner raw) = Some p"
    by (cases "raw_topics raw")
       (auto simp: search_parts_def opt_part_def split: option.splits)
  then show ?thesis
  proof cases
    case 1
    with hit show ?thesis by (simp add: in_scored_field_def normalize_repo_def)
  next
    case 2
    with hit show ?thesis by (simp add: in_full_name_def normalize_repo_def)
  next
    case 3
    with hit show ?thesis by (simp add: in_scored_field_def normalize_repo_def)
  next
    case 4
    with hit pne show ?thesis by (simp add: in_scored_field_def normalize_repo_def)
  next
    case 5
    with hit have "list_ex (\<lambda>topic. str_includes (toLowerCase topic) t) (topics ?r)"
      by (auto simp: normalize_repo_def list_ex_iff)
    then show ?thesis by (simp add: in_scored_field_def)
  next
    case 6
    with l hit show ?thesis by (simp add: in_scored_field_def)
  qed
qed

text \<open>
  Claim C6 (the score-0 exclusion), as amended. For a normalized repository with an
  owner login that passes the AND pre-filter, the loop returns a score, and the score is
  strictly positive exactly when some search term occurs in one of the five scored
  fields. A term that occurs in none of them occurs in \<^verbatim>\<open>full_name\<close>, which is part
  of \<^verbatim>\<open>searchText\<close> but is not scored. So the score is 0, and the exclusion applies,
  only when every term is matched through the full name alone.
\<close>

theorem score_zero_only_through_full_name:
  assumes "owner_login (raw_owner raw) = Some l"
    and "hasAllTerms (normalize_repo now i raw) (search_terms query)"
  shows "\<exists>score. score_terms (normalize_repo now i raw) (search_terms query) 0 = Inr score \<and>
           (0 < score \<longleftrightarrow>
              (\<exists>t \<in> set (search_terms query). in_scored_field (normalize_repo now i raw) l t)) \<and>
           (\<forall>t \<in> set (search_terms query).
              in_scored_field (normalize_repo now i raw) l t \<or>
              in_full_name (normalize_repo now i raw) t)"
proof -
  let ?r = "normalize_repo now i raw" and ?ts = "search_terms query"
  have found: "in_scored_field ?r l t \<or> in_full_name ?r t" if t: "t \<in> set ?ts" for t
  proof -
    from t have shape: "t \<noteq> []" "CHR '' '' \<notin> set t" by (auto dest: search_terms_shape)
    from assms(2) t have "str_includes (searchText ?r) t"
      by (auto simp: hasAllTerms_def list_all_iff)
    then have "str_includes
        (join_space (map toLowerCase (filter (\<lambda>s. s \<noteq> []) (search_parts raw)))) t"
      by (simp only: searchText_normalize_repo)
    with shape obtain p where "p \<in> set (search_parts raw)" "str_includes (toLowerCase p) t"
      by (auto dest!: str_includes_join_space [rotated 2])
    then show ?thesis using shape(1) assms(1) by (rule part_scores)
  qed
  have "owner_login (owner ?r) = Some l"
    using assms(1) by (simp add: normalize_repo_def)
  then have score: "score_terms ?r ?ts 0 = Inr (0 + sum_list (map (term_points ?r l) ?ts))"
    by (rule score_terms_login)
  have "0 < sum_list (map (term_points ?r l) ?ts) \<longleftrightarrow> (\<exists>t \<in> set ?ts. 0 < term_points ?r l t)"
    by (rule sum_list_pos_iff) (rule term_points_nonneg)
  then have pos: "0 < 0 + sum_list (map (term_points ?r l) ?ts) \<longleftrightarrow>
      (\<exists>t \<in> set ?ts. in_scored_field ?r l t)"
    by (simp add: term_points_pos_iff)
  from score pos found show ?thesis by blast
qed

text \<open>
  Two runs on the entry \<open>react\<close> of \<open>facebook/react\<close>: the term \<^verbatim>\<open>react\<close> occurs
  in the full name and in the name, and scores 10; the term \<^verbatim>\<open>facebook/react\<close>
  occurs in the full name only, and scores 0.
\<close>

theorem score_positive_witness:
  "owner_login (raw_owner ex_react) = Some ''facebook'' \<and>
   hasAllTerms (normalize_repo 0 0 ex_react) (search_terms ''React'') \<and>
   in_full_name (normalize_repo 0 0 ex_react) ''react'' \<and>
   in_scored_field (normalize_repo 0 0 ex_react) ''facebook'' ''react'' \<and>
   score_terms (normalize_repo 0 0 ex_react) (search_terms ''React'') 0 = Inr 10 \<and>
   hasAllTerms (normalize_repo 0 0 ex_react) (search_terms ''facebook/react'') \<and>
   \<not> in_scored_field (normalize_repo 0 0 ex_react) ''facebook'' ''facebook/react'' \<and>
   in_full_name (normalize_repo 0 0 ex_react) ''facebook/react'' \<and>
   score_terms (normalize_repo 0 0 ex_react) (search_terms ''facebook/react'') 0 = Inr 0"
proof -
  let ?r = "normalize_repo 0 0 ex_react"
  have a: "owner_login (raw_owner ex_react) = Some ''facebook''"
    by (simp add: search_eval search_examples)
  have b: "hasAllTerms ?r (search_terms ''React'')"
    and c: "hasAllTerms ?r (search_terms ''facebook/react'')"
    by (simp_all add: search_eval search_examples)
  have terms: "search_terms ''React'' = [''react'']"
    "search_terms ''facebook/react'' = [''facebook/react'']"
    by (simp_all add: search_eval)
  have fields: "in_full_name ?r ''react''" "in_scored_field ?r ''facebook'' ''react''"
    "\<not> in_scored_field ?r ''facebook'' ''facebook/react''"
    by (simp_all add: in_full_name_def in_scored_field_def search_eval search_examples)
  have scores: "score_terms ?r (search_terms ''React'') 0 = Inr 10"
    "score_terms ?r (search_terms ''facebook/react'') 0 = Inr 0"
    by (simp_all add: search_eval search_examples)
  from score_zero_only_through_full_name [OF a c]
  have "\<forall>t \<in> set (search_terms ''facebook/react'').
          in_scored_field ?r ''facebook'' t \<or> in_full_name ?r t"
    by blast
  hence "in_scored_field ?r ''facebook'' ''facebook/react'' \<or> in_full_name ?r ''facebook/react''"
    unfolding terms by simp
  with fields(3) have "in_full_name ?r ''facebook/react''"
    by blast
  with a b c fields scores show ?thesis
    by - (intro conjI; assumption)
qed

text \<open>
  The claim as first stated fails when every term is found in the full name only:
  \<^verbatim>\<open>facebook/react\<close> occurs in the search text of the entry, which passes the AND
  pre-filter, scores 0 and is removed by the score-0 exclusion.
\<close>

theorem score_zero_counterexample:
  "hasAllTerms (ex_heap 0) (search_terms ''facebook/react'') \<and>
   score_terms (ex_heap 0) (search_terms ''facebook/react'') 0 = Inr 0 \<and>
   snd (performAdvancedSearch ex_heap [0] ''facebook/react'') = Inr []"
  by (simp add: search_eval search_examples)

lemma mem_sortRepositories: "mem (sortRepositories collate st) = mem st"
  by (simp add: sortRepositories_def)

lemma mem_updateFilteredRepositories:
  "mem (fst (updateFilteredRepositories collate search st)) =
     (if searchTerm st \<noteq> []
      then fst (search (mem st) (repositories st) (searchTerm st))
      else mem st)"
  by (auto simp: updateFilteredRepositories_def mem_sortRepositories
           split: prod.splits sum.splits)

lemma updateFilteredRepositories_ok:
  assumes "updateFilteredRepositories collate search st = (st', None)"
    and "searchTerm st \<noteq> []"
  shows "\<exists>out. search (mem st) (repositories st) (searchTerm st) = (mem st', Inr out)"
  using assms
  by (auto simp: updateFilteredRepositories_def mem_sortRepositories
           split: prod.splits sum.splits)

subsection \<open>The search cache\<close>

lemma decimal_digit: "n < 10 \<Longrightarrow> decimal n = [''0123456789'' ! n]"
  by (simp add: decimal.simps [of n])

text \<open>A cached key is answered without a search pass; any other key runs the method.\<close>

lemma cached_search_hit:
  "map_of cache (cacheKey query repos) = Some result \<Longrightarrow>
   cached_search cache h repos query = (h, Inr result)"
  by (simp add: cached_search_def optimized_search_def)

lemma cached_search_miss:
  "map_of cache (cacheKey query repos) = None \<Longrightarrow>
   cached_search cache h repos query = performAdvancedSearch h repos query"
  by (auto simp: cached_search_def optimized_search_def split: prod.splits sum.splits)

text \<open>
  Claim C9 (frame condition on filtering and sorting), as amended.
  \<^verbatim>\<open>updateFilteredRepositories\<close> runs the search, the language filter and the sort;
  \<^verbatim>\<open>sortRepositories\<close> alone runs when the sort key changes. The search is the call
  of the wrapper that \<^verbatim>\<open>optimizeSearch\<close> installs, whatever the cache holds. Neither
  changes a field other than \<^verbatim>\<open>searchScore\<close> of any object in the store.
  \<^verbatim>\<open>searchScore\<close> stays as it was on every object that is not in the working set or
  does not contain all terms, and on every object when the term is empty or the search
  is answered from the cache. When the key is not in the cache and the search returns,
  every object of the working set that contains all terms carries the score of the
  current term.
\<close>

theorem filtering_sorting_frame:
  assumes "updateFilteredRepositories collate (cached_search cache) st = (st', err)"
  shows "(\<forall>a. unchanged_except_searchScore (mem st a) (mem st' a)) \<and>
         (\<forall>a. a \<notin> set (repositories st) \<or> searchTerm st = [] \<or>
               map_of cache (cacheKey (searchTerm st) (repositories st)) \<noteq> None \<or>
               \<not> hasAllTerms (mem st a) (search_terms (searchTerm st)) \<longrightarrow>
               searchScore (mem st' a) = searchScore (mem st a)) \<and>
         (err = None \<and> searchTerm st \<noteq> [] \<and>
          map_of cache (cacheKey (searchTerm st) (repositories st)) = None \<longrightarrow>
            (\<forall>a \<in> set (repositories st).
               hasAllTerms (mem st a) (search_terms (searchTerm st)) \<longrightarrow>
               searchScore (mem st' a) =
                 Some (relevance (mem st a) (search_terms (searchTerm st))))) \<and>
         mem (sortRepositories collate st') = mem st'"
proof (cases "map_of cache (cacheKey (searchTerm st) (repositories st))")
  case (Some result)
  then have "cached_search cache (mem st) (repositories st) (searchTerm st) =
      (mem st, Inr result)"
    by (rule cached_search_hit)
  then have "mem st' = mem st"
    using mem_updateFilteredRepositories [of collate "cached_search cache" st] assms by simp
  with Some show ?thesis
    by (simp add: unchanged_refl mem_sortRepositories)
next
  case None
  then have miss: "cached_search cache (mem st) (repositories st) (searchTerm st) =
      performAdvancedSearch (mem st) (repositories st) (searchTerm st)"
    by (rule cached_search_miss)
  have m: "mem st' =
     (if searchTerm st \<noteq> []
      then fst (performAdvancedSearch (mem st) (repositories st) (searchTerm st))
      else mem st)"
    using mem_updateFilteredRepositories [of collate "cached_search cache" st] assms miss
    by simp
  have frame: "unchanged_except_searchScore (mem st a) (mem st' a)" for a
    by (simp add: m performAdvancedSearch_frame unchanged_refl)
  have untouched: "searchScore (mem st' a) = searchScore (mem st a)"
    if "a \<notin> set (repositories st) \<or> searchTerm st = [] \<or>
        \<not> hasAllTerms (mem st a) (search_terms (searchTerm st))" for a
    using performAdvancedSearch_untouched [of a "repositories st" "searchTerm st" "mem st"] that
    by (simp add: m)
  have scored: "searchScore (mem st' a) =
      Some (relevance (mem st a) (search_terms (searchTerm st)))"
    if "err = None" "searchTerm st \<noteq> []" "a \<in> set (repositories st)"
       "hasAllTerms (mem st a) (search_terms (searchTerm st))" for a
  proof -
    from assms that obtain out where
      run: "performAdvancedSearch (mem st) (repositories st) (searchTerm st) = (mem st', Inr out)"
      using updateFilteredRepositories_ok [of collate "cached_search cache" st st'] miss by auto
    have "mem st' = rescored (search_terms (searchTerm st)) (mem st) (repositories st)"
      using that(2) run by (rule performAdvancedSearch_returns(2))
    with that show ?thesis by (simp add: rescored_searchScore)
  qed
  from frame untouched scored None show ?thesis by (simp add: mem_sortRepositories)
qed

lemmas state_eval = updateFilteredRepositories_def sortRepositories_def comparison_def ex_state_def

lemmas cache_eval =
  optimized_search_def cached_search_def search_step_def Map_set_def cacheKey_def decimal_digit

text \<open>
  Two runs. With an empty cache the search for \<^verbatim>\<open>vue\<close> runs the method: the entry
  \<open>Vue\<close> is scored 14 and the entry \<open>react\<close>, which does not contain the term,
  keeps its absent score. With the key \<^verbatim>\<open>react-2\<close> in the cache the search for
  \<^verbatim>\<open>react\<close> is answered from the cache: the entry \<open>react\<close> keeps the score 4 it
  had.
\<close>

theorem filtering_sorting_frame_witness:
  "snd (updateFilteredRepositories toLowerCase (cached_search [])
          (ex_state\<lparr>searchTerm := ''vue''\<rparr>)) = None \<and>
   map_of ([] :: searchCache) (cacheKey ''vue'' [0, 1]) = None \<and>
   filteredRepositories (fst (updateFilteredRepositories toLowerCase (cached_search [])
          (ex_state\<lparr>searchTerm := ''vue''\<rparr>))) = [1] \<and>
   searchScore (mem (fst (updateFilteredRepositories toLowerCase (cached_search [])
          (ex_state\<lparr>searchTerm := ''vue''\<rparr>))) 1) = Some 14 \<and>
   searchScore (mem (fst (updateFilteredRepositories toLowerCase (cached_search [])
          (ex_state\<lparr>searchTerm := ''vue''\<rparr>))) 0) = None \<and>
   name (mem (fst (updateFilteredRepositories toLowerCase (cached_search [])
          (ex_state\<lparr>searchTerm := ''vue''\<rparr>))) 1) = ''Vue'' \<and>
   map_of ([(''react-2'', [0])] :: searchCache) (cacheKey ''react'' [0, 1]) = Some [0] \<and>
   searchScore (mem (fst (updateFilteredRepositories toLowerCase
          (cached_search [(''react-2'', [0])])
          (ex_state\<lparr>mem := ex_heap(0 := (ex_heap 0)\<lparr>searchScore := Some 4\<rparr>),
                    searchTerm := ''react''\<rparr>))) 0) = Some 4"
proof -
  let ?st = "ex_state\<lparr>searchTerm := ''vue''\<rparr>"
  obtain st' where run: "updateFilteredRepositories toLowerCase (cached_search []) ?st = (st', None)"
    and fl: "filteredRepositories st' = [1]"
    by (simp add: cache_eval state_eval search_eval search_examples)
  note f = filtering_sorting_frame [OF run]
  have rel: "relevance (mem ?st 1) (search_terms (searchTerm ?st)) = 14"
    and has: "hasAllTerms (mem ?st 1) (search_terms (searchTerm ?st))"
    and hasnt: "\<not> hasAllTerms (mem ?st 0) (search_terms (searchTerm ?st))"
    and before: "searchScore (mem ?st 0) = None" "name (mem ?st 1) = ''Vue''"
    and inset: "1 \<in> set (repositories ?st)" "searchTerm ?st \<noteq> []"
    and miss: "map_of ([] :: searchCache) (cacheKey (searchTerm ?st) (repositories ?st)) = None"
    by (simp_all add: ex_state_def relevance_def search_eval search_examples)
  from f has inset rel miss have s1: "searchScore (mem st' 1) = Some 14" by auto
  from f hasnt before have s0: "searchScore (mem st' 0) = None" by auto
  from f have "unchanged_except_searchScore (mem ?st 1) (mem st' 1)" by blast
  then have "name (mem st' 1) = name (mem ?st 1)"
    by (metis unchanged_except_searchScore_def repository.select_convs(2) repository.surjective
        repository.update_convs(13))
  with before have n1: "name (mem st' 1) = ''Vue''" by simp
  let ?c = "[(''react-2'', [0])] :: searchCache"
  let ?st2 = "ex_state\<lparr>mem := ex_heap(0 := (ex_heap 0)\<lparr>searchScore := Some 4\<rparr>),
                      searchTerm := ''react''\<rparr>"
  obtain st2 err2 where
    run2: "updateFilteredRepositories toLowerCase (cached_search ?c) ?st2 = (st2, err2)"
    by (metis surj_pair)
  have hit: "map_of ?c (cacheKey ''react'' [0, 1]) = Some [0]"
    and hit': "map_of ?c (cacheKey (searchTerm ?st2) (repositories ?st2)) \<noteq> None"
    and before2: "searchScore (mem ?st2 0) = Some 4"
    by (simp_all add: ex_state_def cacheKey_def decimal_digit)
  from filtering_sorting_frame [OF run2] hit'
  have "searchScore (mem st2 0) = searchScore (mem ?st2 0)" by blast
  with before2 run2 have s2: "searchScore (mem (fst
      (updateFilteredRepositories toLowerCase (cached_search ?c) ?st2)) 0) = Some 4"
    by simp
  have k: "map_of ([] :: searchCache) (cacheKey ''vue'' [0, 1]) = None" by simp
  from run fl s1 s0 n1 have first:
    "snd (updateFilteredRepositories toLowerCase (cached_search []) ?st) = None"
    "filteredRepositories (fst (updateFilteredRepositories toLowerCase (cached_search []) ?st)) = [1]"
    "searchScore (mem (fst (updateFilteredRepositories toLowerCase (cached_search []) ?st)) 1) = Some 14"
    "searchScore (mem (fst (updateFilteredRepositories toLowerCase (cached_search []) ?st)) 0) = None"
    "name (mem (fst (updateFilteredRepositories toLowerCase (cached_search []) ?st)) 1) = ''Vue''"
    by simp_all
  from first k hit s2 show ?thesis
    by - (intro conjI; assumption)
qed

text \<open>
  The claim as first stated, that after a search every repository's
  \<^verbatim>\<open>searchScore\<close> reflects the current term, fails in two ways. After the searches
  for \<^verbatim>\<open>react\<close> and then \<^verbatim>\<open>vue\<close> the entry at address 0, which the second search
  does not match, still carries the 10 of the first. After the searches for
  \<^verbatim>\<open>react\<close>, \<^verbatim>\<open>facebook\<close> and \<^verbatim>\<open>react\<close> again, the third is answered from the
  cache under the key \<^verbatim>\<open>react-2\<close>: the entry at address 0 is in the result and
  contains the term, whose score is 10, but carries the 4 of the search for
  \<^verbatim>\<open>facebook\<close>.
\<close>

theorem stale_searchScore_counterexample:
  "searchScore (mem (snd (foldl (search_step toLowerCase) ([], ex_state)
       [''react'', ''vue''])) 0) = Some 10 \<and>
   \<not> hasAllTerms (ex_heap 0) (search_terms ''vue'') \<and>
   relevance (ex_heap 0) (search_terms ''vue'') = 0 \<and>
   fst (foldl (search_step toLowerCase) ([], ex_state) [''react'', ''facebook'']) =
     [(''react-2'', [0]), (''facebook-2'', [0])] \<and>
   cacheKey ''react'' (repositories ex_state) = ''react-2'' \<and>
   searchScore (mem (snd (foldl (search_step toLowerCase) ([], ex_state)
       [''react'', ''facebook''])) 0) = Some 4 \<and>
   searchScore (mem (snd (foldl (search_step toLowerCase) ([], ex_state)
       [''react'', ''facebook'', ''react''])) 0) = Some 4 \<and>
   filteredRepositories (snd (foldl (search_step toLowerCase) ([], ex_state)
       [''react'', ''facebook'', ''react''])) = [0] \<and>
   hasAllTerms (ex_heap 0) (search_terms ''react'') \<and>
   relevance (ex_heap 0) (search_terms ''react'') = 10"
  by (simp add: cache_eval state_eval search_eval search_examples relevance_def)

text \<open>
  Claim C3 (search AND semantics and result order) at a list holding an entry without
  owner. The query \<^verbatim>\<open>Go  REACT\<close> has the terms \<^verbatim>\<open>go\<close> and \<^verbatim>\<open>react\<close>. Of the
  three entries only \<open>reactor\<close> (language Go) contains both in its search text, so
  by the claim the search returns that entry. It throws instead: the entry has no owner,
  and the scoring loop reads \<^verbatim>\<open>repo.owner.login\<close> of every entry that contains all
  terms.
\<close>

theorem search_and_semantics_owner:
  "search_terms ''Go  REACT'' = [''go'', ''react''] \<and>
   map (\<lambda>a. hasAllTerms (ex_heap a) (search_terms ''Go  REACT'')) [0, 1, 2] =
     [False, False, True] \<and>
   owner (ex_heap 2) = None \<and>
   snd (performAdvancedSearch ex_heap [0, 1, 2] ''Go  REACT'') = Inl TypeError"
  by (simp add: search_eval search_examples)

text \<open>
  Claim C10. A normalized repository without an owner makes the search throw: the
  entry \<open>reactor\<close> is produced by \<^verbatim>\<open>processRepositoryData\<close>, has no owner, contains
  the term \<^verbatim>\<open>reactor\<close> in its search text, and \<^verbatim>\<open>performAdvancedSearch\<close> ends in a
  \<^verbatim>\<open>TypeError\<close> on it.
\<close>

theorem owner_access_throws:
  "\<exists>data query lo r.
     processRepositoryData 0 data = Inr (lo, [r]) \<and> owner r = None \<and> query \<noteq> [] \<and>
     search_terms query \<noteq> [] \<and> hasAllTerms r (search_terms query) \<and>
     snd (performAdvancedSearch (\<lambda>a. r) [0] query) = Inl TypeError"
proof -
  let ?r = "normalize_repo 0 0 ex_orphan"
  have "processRepositoryData 0 (PArray [Some ex_orphan]) = Inr (Map.empty, [?r])"
    by (simp add: normalizer_eval search_examples)
  moreover have "owner ?r = None" "''reactor'' \<noteq> []" "search_terms ''reactor'' \<noteq> []"
    "hasAllTerms ?r (search_terms ''reactor'')"
    "snd (performAdvancedSearch (\<lambda>a. ?r) [0] ''reactor'') = Inl TypeError"
    by (simp_all add: search_eval search_examples)
  ultimately show ?thesis by blast
qed

text \<open>Every such search throws, whatever else the list holds.\<close>

lemma performAdvancedSearch_throws:
  assumes "a \<in> set refs" and "owner_login (owner (h a)) = None"
    and "search_terms query \<noteq> []" and "hasAllTerms (h a) (search_terms query)"
  shows "snd (performAdvancedSearch h refs query) = Inl TypeError"
proof -
  from assms(3) have q: "query \<noteq> []"
    by (auto simp: search_terms_def toLowerCase_def)
  have "\<not> scorable (h a) (search_terms query)"
    using assms(2,3) by (simp add: scorable_def score_terms_no_login)
  with assms(1,4) have "snd (search_filter (search_terms query) h refs) = Inl TypeError"
    by (intro search_filter_throws) blast
  with q show ?thesis
    by (auto simp: performAdvancedSearch_def split: prod.splits sum.splits)
qed

text \<open>
  When the search of the whole list returns, searching the language-filtered list
  returns too, and gives the language-filtered result of the former.
\<close>

lemma filter_commutes_when_returning:
  assumes q: "query \<noteq> []"
    and run: "performAdvancedSearch h refs query = (h1, Inr out1)"
  shows "\<exists>h2. performAdvancedSearch h (language_filter h selected refs) query =
              (h2, Inr (language_filter h1 selected out1))"
proof -
  let ?ts = "search_terms query"
  let ?L = "\<lambda>a. language (h a) = selected"
  let ?sub = "language_filter h selected refs"
  note r = performAdvancedSearch_returns [OF q run]
  have ok: "\<forall>a \<in> set ?sub. hasAllTerms (h a) ?ts \<longrightarrow> scorable (h a) ?ts"
    using r(1) by (simp add: language_filter_def)
  let ?h2 = "rescored ?ts h ?sub"
  let ?kept2 = "filter (retained ?ts h) ?sub"
  have pass2: "search_filter ?ts h ?sub = (?h2, Inr ?kept2)"
    using ok by (rule search_filter_returns)
  then have run2: "performAdvancedSearch h ?sub query =
      (?h2, Inr (js_sort (by_searchScore_desc ?h2) ?kept2))"
    using q by (simp add: performAdvancedSearch_def)
  have lang1: "language (h1 a) = language (h a)" for a
    by (simp add: r(2) rescored_def)
  have kept: "filter ?L (filter (retained ?ts h) refs) = ?kept2"
    by (simp add: language_filter_def conj_commute)
  have score1: "searchScore (h1 a) = Some (relevance (h a) ?ts)" if "a \<in> set ?kept2" for a
    using that by (simp add: r(2) rescored_searchScore retained_def language_filter_def)
  have score2: "searchScore (?h2 a) = Some (relevance (h a) ?ts)" if "a \<in> set ?kept2" for a
    using that by (simp add: rescored_searchScore retained_def)
  have "language_filter h1 selected out1 = filter ?L out1"
    by (simp add: language_filter_def lang1)
  also have "\<dots> = filter ?L (js_sort (by_searchScore_desc h1) (filter (retained ?ts h) refs))"
    by (simp only: r(3))
  also have "\<dots> = js_sort (by_searchScore_desc h1) (filter ?L (filter (retained ?ts h) refs))"
    by (rule filter_js_sort_commute) (auto simp: by_searchScore_desc_def)
  also have "\<dots> = js_sort (by_searchScore_desc h1) ?kept2"
    by (simp only: kept)
  also have "\<dots> = js_sort (by_searchScore_desc ?h2) ?kept2"
    by (rule js_sort_cong) (simp add: by_searchScore_desc_def score1 score2)
  finally show ?thesis using run2 by simp
qed

text \<open>
  Claim C8 (filter commutativity) at a list holding an entry without owner: searching
  the whole list, as \<^verbatim>\<open>updateFilteredRepositories\<close> does before it filters by
  language, throws on the entry \<open>reactor\<close> (language Go); filtering by language
  \<^verbatim>\<open>JavaScript\<close> first and searching the rest returns the entry \<open>react\<close>.
\<close>

theorem filter_commutativity_owner:
  "snd (performAdvancedSearch ex_heap [0, 1, 2] ''react'') = Inl TypeError \<and>
   snd (updateFilteredRepositories toLowerCase performAdvancedSearch
          (ex_state\<lparr>repositories := [0, 1, 2], searchTerm := ''react'',
                    selectedLanguage := ''JavaScript''\<rparr>)) = Some TypeError \<and>
   language_filter ex_heap ''JavaScript'' [0, 1, 2] = [0] \<and>
   snd (performAdvancedSearch ex_heap (language_filter ex_heap ''JavaScript'' [0, 1, 2]) ''react'')
     = Inr [0]"
  by (simp add: state_eval search_eval search_examples)

section \<open>Properties of the sort engine\<close>

lemma localeCompare_base_le:
  "localeCompare_base collate s t \<le> 0 \<longleftrightarrow> collate (toLowerCase s) \<le> collate (toLowerCase t)"
  by (auto simp: localeCompare_base_def)

lemma localeCompare_base_case:
  "toLowerCase s = toLowerCase t \<Longrightarrow> localeCompare_base collate s t = 0"
  by (simp add: localeCompare_base_def)

lemma comparison_le: "comparison collate key a b \<le> 0 \<longleftrightarrow> ordered_by collate key a b"
  by (simp add: comparison_def ordered_by_def localeCompare_base_le)

lemma ordered_by_total: "ordered_by collate key a b \<or> ordered_by collate key b a"
  unfolding ordered_by_def by (simp add: linear)

lemma ordered_by_trans:
  assumes "ordered_by collate key a b" and "ordered_by collate key b c"
  shows "ordered_by collate key a c"
proof -
  let ?P = "\<lambda>k. key = k"
  consider "?P ''recent-likes''" | "\<not> ?P ''recent-likes''" "?P ''stars-asc''"
    | "\<not> ?P ''recent-likes''" "\<not> ?P ''stars-asc''" "?P ''name''"
    | "\<not> ?P ''recent-likes''" "\<not> ?P ''stars-asc''" "\<not> ?P ''name''" "?P ''name-desc''"
    | "\<not> ?P ''recent-likes''" "\<not> ?P ''stars-asc''" "\<not> ?P ''name''" "\<not> ?P ''name-desc''"
      "?P ''updated''"
    | "\<not> ?P ''recent-likes''" "\<not> ?P ''stars-asc''" "\<not> ?P ''name''" "\<not> ?P ''name-desc''"
      "\<not> ?P ''updated''" "?P ''created''"
    | "\<not> ?P ''recent-likes''" "\<not> ?P ''stars-asc''" "\<not> ?P ''name''" "\<not> ?P ''name-desc''"
      "\<not> ?P ''updated''" "\<not> ?P ''created''"
    by metis
  then show ?thesis
    using assms by cases (simp_all add: ordered_by_def)
qed

lemma sortRepositories_ordered:
  "sorted_wrt (\<lambda>a b. ordered_by collate (sortBy st) (mem st a) (mem st b))
     (filteredRepositories (sortRepositories collate st))"
proof -
  let ?cmp = "\<lambda>a b. comparison collate (sortBy st) (mem st a) (mem st b)"
  have "sorted_wrt (\<lambda>a b. ?cmp a b \<le> 0) (js_sort ?cmp (filteredRepositories st))"
    by (rule sorted_js_sort) (auto simp: comparison_le ordered_by_total intro: ordered_by_trans)
  then show ?thesis by (simp add: sortRepositories_def comparison_le)
qed

lemma sortRepositories_mset:
  "mset (filteredRepositories (sortRepositories collate st)) = mset (filteredRepositories st)"
  by (simp add: sortRepositories_def mset_js_sort)

lemma sortRepositories_stable:
  "filter (\<lambda>b. ordered_by collate (sortBy st) (mem st r) (mem st b) \<and>
               ordered_by collate (sortBy st) (mem st b) (mem st r))
     (filteredRepositories (sortRepositories collate st)) =
   filter (\<lambda>b. ordered_by collate (sortBy st) (mem st r) (mem st b) \<and>
               ordered_by collate (sortBy st) (mem st b) (mem st r))
     (filteredRepositories st)"
  unfolding sortRepositories_def
  by (simp, rule filter_js_sort) (auto simp: comparison_le intro: ordered_by_trans)

text \<open>Under both name keys, entries whose names differ only in case keep their order.\<close>

lemma sortRepositories_case_ties:
  assumes "sortBy st = ''name'' \<or> sortBy st = ''name-desc''"
  shows "filter (\<lambda>a. toLowerCase (name (mem st a)) = k)
           (filteredRepositories (sortRepositories collate st)) =
         filter (\<lambda>a. toLowerCase (name (mem st a)) = k) (filteredRepositories st)"
proof -
  have "comparison collate (sortBy st) (mem st a) (mem st b) \<le> 0"
    if "toLowerCase (name (mem st a)) = k" "toLowerCase (name (mem st b)) = k" for a b
    using assms that by (auto simp: comparison_def localeCompare_base_case)
  then show ?thesis
    unfolding sortRepositories_def by (simp, intro filter_js_sort) blast
qed

lemma sortRepositories_fallback:
  "sortBy st \<notin> {''recent-likes'', ''stars'', ''stars-asc'', ''name'', ''name-desc'',
                 ''updated'', ''created''} \<Longrightarrow>
   filteredRepositories (sortRepositories collate st) =
   filteredRepositories (sortRepositories collate (st\<lparr>sortBy := ''stars''\<rparr>))"
  by (simp add: sortRepositories_def comparison_def)

text \<open>
  Claim C4 (sort comparator semantics). \<^verbatim>\<open>sortRepositories\<close> permutes the filtered
  list, and the result is ordered as the key says: \<^verbatim>\<open>recent-likes\<close> ascending
  \<^verbatim>\<open>originalIndex\<close>, \<^verbatim>\<open>stars\<close> descending and \<^verbatim>\<open>stars-asc\<close> ascending star
  count, \<^verbatim>\<open>updated\<close> and \<^verbatim>\<open>created\<close> descending timestamp. Under \<^verbatim>\<open>name\<close> the
  result ascends, under \<^verbatim>\<open>name-desc\<close> it descends, in the collation order of the
  case-folded names; names that differ only in case are ties and keep their order in
  the list. For any other key the result is the one for \<^verbatim>\<open>stars\<close>.
\<close>

theorem sort_comparator_semantics:
  fixes collate :: "string \<Rightarrow> 'k::linorder"
  defines "out \<equiv> \<lambda>st. filteredRepositories (sortRepositories collate st)"
  shows
    "mset (out st) = mset (filteredRepositories st) \<and>
     (sortBy st = ''recent-likes'' \<longrightarrow>
        sorted_wrt (\<lambda>a b. originalIndex (mem st a) \<le> originalIndex (mem st b)) (out st)) \<and>
     (sortBy st = ''stars'' \<longrightarrow>
        sorted_wrt (\<lambda>a b. stargazers_count (mem st b) \<le> stargazers_count (mem st a)) (out st)) \<and>
     (sortBy st = ''stars-asc'' \<longrightarrow>
        sorted_wrt (\<lambda>a b. stargazers_count (mem st a) \<le> stargazers_count (mem st b)) (out st)) \<and>
     (sortBy st = ''name'' \<longrightarrow>
        sorted_wrt (\<lambda>a b. collate (toLowerCase (name (mem st a)))
                          \<le> collate (toLowerCase (name (mem st b)))) (out st)) \<and>
     (sortBy st = ''name-desc'' \<longrightarrow>
        sorted_wrt (\<lambda>a b. collate (toLowerCase (name (mem st b)))
                          \<le> collate (toLowerCase (name (mem st a)))) (out st)) \<and>
     (sortBy st = ''name'' \<or> sortBy st = ''name-desc'' \<longrightarrow>
        (\<forall>k. filter (\<lambda>a. toLowerCase (name (mem st a)) = k) (out st) =
             filter (\<lambda>a. toLowerCase (name (mem st a)) = k) (filteredRepositories st))) \<and>
     (sortBy st = ''updated'' \<longrightarrow>
        sorted_wrt (\<lambda>a b. updated_at (mem st b) \<le> updated_at (mem st a)) (out st)) \<and>
     (sortBy st = ''created'' \<longrightarrow>
        sorted_wrt (\<lambda>a b. created_at (mem st b) \<le> created_at (mem st a)) (out st)) \<and>
     (sortBy st \<notin> {''recent-likes'', ''stars'', ''stars-asc'', ''name'', ''name-desc'',
                    ''updated'', ''created''} \<longrightarrow>
        out st = out (st\<lparr>sortBy := ''stars''\<rparr>) \<and>
        sorted_wrt (\<lambda>a b. stargazers_count (mem st b) \<le> stargazers_count (mem st a)) (out st))"
proof -
  have s: "sorted_wrt (\<lambda>a b. ordered_by collate (sortBy st) (mem st a) (mem st b)) (out st)"
    unfolding out_def by (rule sortRepositories_ordered)
  have m: "mset (out st) = mset (filteredRepositories st)"
    unfolding out_def by (rule sortRepositories_mset)
  have k1: "sorted_wrt (\<lambda>a b. originalIndex (mem st a) \<le> originalIndex (mem st b)) (out st)"
    if "sortBy st = ''recent-likes''"
    using s by (simp add: ordered_by_def that)
  have k2: "sorted_wrt (\<lambda>a b. stargazers_count (mem st b) \<le> stargazers_count (mem st a)) (out st)"
    if "sortBy st = ''stars''"
    using s by (simp add: ordered_by_def that)
  have k3: "sorted_wrt (\<lambda>a b. stargazers_count (mem st a) \<le> stargazers_count (mem st b)) (out st)"
    if "sortBy st = ''stars-asc''"
    using s by (simp add: ordered_by_def that)
  have k4: "sorted_wrt (\<lambda>a b. collate (toLowerCase (name (mem st a)))
                          \<le> collate (toLowerCase (name (mem st b)))) (out st)"
    if "sortBy st = ''name''"
    using s by (simp add: ordered_by_def that)
  have k5: "sorted_wrt (\<lambda>a b. collate (toLowerCase (name (mem st b)))
                          \<le> collate (toLowerCase (name (mem st a)))) (out st)"
    if "sortBy st = ''name-desc''"
    using s by (simp add: ordered_by_def that)
  have k45: "\<forall>k. filter (\<lambda>a. toLowerCase (name (mem st a)) = k) (out st) =
             filter (\<lambda>a. toLowerCase (name (mem st a)) = k) (filteredRepositories st)"
    if "sortBy st = ''name'' \<or> sortBy st = ''name-desc''"
    unfolding out_def using sortRepositories_case_ties [OF that] by blast
  have k6: "sorted_wrt (\<lambda>a b. updated_at (mem st b) \<le> updated_at (mem st a)) (out st)"
    if "sortBy st = ''updated''"
    using s by (simp add: ordered_by_def that)
  have k7: "sorted_wrt (\<lambda>a b. created_at (mem st b) \<le> created_at (mem st a)) (out st)"
    if "sortBy st = ''created''"
    using s by (simp add: ordered_by_def that)
  have k8: "out st = out (st\<lparr>sortBy := ''stars''\<rparr>) \<and>
      sorted_wrt (\<lambda>a b. stargazers_count (mem st b) \<le> stargazers_count (mem st a)) (out st)"
    if "sortBy st \<notin> {''recent-likes'', ''stars'', ''stars-asc'', ''name'', ''name-desc'',
                    ''updated'', ''created''}"
    using s sortRepositories_fallback [OF that, of collate] that
    by (simp add: ordered_by_def out_def)
  show ?thesis
    by (intro conjI impI m k1 k2 k3 k4 k5 k45 k6 k7 k8 [THEN conjunct1] k8 [THEN conjunct2])
qed

lemmas sort_eval =
  sortRepositories_def comparison_def localeCompare_base_def ex_sort_state_def ex_named_def
  normalize_repo_def js_sort_def lowercase_eval

text \<open>
  The runs take the identity for \<open>collate\<close>, the order of the case-folded names by
  code unit. By code unit without folding, \<open>Cherry\<close> would come before \<open>banana\<close>.
\<close>

theorem sort_comparator_semantics_witness:
  "(filteredRepositories (sortRepositories (\<lambda>s. s) (ex_sort_state ''recent-likes'')) = [3, 2, 1, 0] \<and>
    sorted_wrt (\<lambda>a b. originalIndex (mem (ex_sort_state ''recent-likes'') a)
                      \<le> originalIndex (mem (ex_sort_state ''recent-likes'') b)) [3, 2, 1, 0]) \<and>
   (filteredRepositories (sortRepositories (\<lambda>s. s) (ex_sort_state ''stars'')) = [1, 0, 3, 2] \<and>
    map (\<lambda>a. stargazers_count (mem (ex_sort_state ''stars'') a)) [1, 0, 3, 2] = [50, 10, 7, 5] \<and>
    sorted_wrt (\<lambda>a b. stargazers_count (mem (ex_sort_state ''stars'') b)
                      \<le> stargazers_count (mem (ex_sort_state ''stars'') a)) [1, 0, 3, 2]) \<and>
   (filteredRepositories (sortRepositories (\<lambda>s. s) (ex_sort_state ''stars-asc'')) = [2, 3, 0, 1] \<and>
    sorted_wrt (\<lambda>a b. stargazers_count (mem (ex_sort_state ''stars-asc'') a)
                      \<le> stargazers_count (mem (ex_sort_state ''stars-asc'') b)) [2, 3, 0, 1]) \<and>
   (filteredRepositories (sortRepositories (\<lambda>s. s) (ex_sort_state ''name'')) = [1, 3, 0, 2] \<and>
    map (\<lambda>a. name (mem (ex_sort_state ''name'') a)) [1, 3, 0, 2] =
      [''Apple'', ''APPLE'', ''banana'', ''Cherry''] \<and>
    sorted_wrt (\<lambda>a b. toLowerCase (name (mem (ex_sort_state ''name'') a))
                      \<le> toLowerCase (name (mem (ex_sort_state ''name'') b))) [1, 3, 0, 2] \<and>
    filter (\<lambda>a. toLowerCase (name (mem (ex_sort_state ''name'') a)) = ''apple'') [1, 3, 0, 2] =
    filter (\<lambda>a. toLowerCase (name (mem (ex_sort_state ''name'') a)) = ''apple'') [0, 1, 2, 3]) \<and>
   (filteredRepositories (sortRepositories (\<lambda>s. s) (ex_sort_state ''name-desc'')) = [2, 0, 1, 3] \<and>
    sorted_wrt (\<lambda>a b. toLowerCase (name (mem (ex_sort_state ''name-desc'') b))
                      \<le> toLowerCase (name (mem (ex_sort_state ''name-desc'') a))) [2, 0, 1, 3] \<and>
    filter (\<lambda>a. toLowerCase (name (mem (ex_sort_state ''name-desc'') a)) = ''apple'') [2, 0, 1, 3] =
    filter (\<lambda>a. toLowerCase (name (mem (ex_sort_state ''name-desc'') a)) = ''apple'') [0, 1, 2, 3]) \<and>
   (filteredRepositories (sortRepositories (\<lambda>s. s) (ex_sort_state ''updated'')) = [1, 0, 2, 3] \<and>
    sorted_wrt (\<lambda>a b. updated_at (mem (ex_sort_state ''updated'') b)
                      \<le> updated_at (mem (ex_sort_state ''updated'') a)) [1, 0, 2, 3]) \<and>
   (filteredRepositories (sortRepositories (\<lambda>s. s) (ex_sort_state ''created'')) = [3, 0, 2, 1] \<and>
    sorted_wrt (\<lambda>a b. created_at (mem (ex_sort_state ''created'') b)
                      \<le> created_at (mem (ex_sort_state ''created'') a)) [3, 0, 2, 1]) \<and>
   (filteredRepositories (sortRepositories (\<lambda>s. s) (ex_sort_state ''forks'')) = [1, 0, 3, 2] \<and>
    filteredRepositories (sortRepositories (\<lambda>s. s) (ex_sort_state ''forks'')) =
    filteredRepositories (sortRepositories (\<lambda>s. s) ((ex_sort_state ''forks'')\<lparr>sortBy := ''stars''\<rparr>)))"
proof -
  let ?run = "\<lambda>k. filteredRepositories (sortRepositories (\<lambda>s. s) (ex_sort_state k))"
  have ev:
    "?run ''recent-likes'' = [3, 2, 1, 0]"
    "?run ''stars'' = [1, 0, 3, 2]"
    "?run ''stars-asc'' = [2, 3, 0, 1]"
    "?run ''name'' = [1, 3, 0, 2]"
    "?run ''name-desc'' = [2, 0, 1, 3]"
    "?run ''updated'' = [1, 0, 2, 3]"
    "?run ''created'' = [3, 0, 2, 1]"
    "?run ''forks'' = [1, 0, 3, 2]"
    by (simp_all add: sort_eval)
  have vals:
    "map (\<lambda>a. stargazers_count (mem (ex_sort_state ''stars'') a)) [1, 0, 3, 2] = [50, 10, 7, 5]"
    "map (\<lambda>a. name (mem (ex_sort_state ''name'') a)) [1, 3, 0, 2] =
      [''Apple'', ''APPLE'', ''banana'', ''Cherry'']"
    by (simp_all add: sort_eval)
  have key: "sortBy (ex_sort_state k) = k" for k by (simp add: ex_sort_state_def)
  have fl: "filteredRepositories (ex_sort_state k) = [0, 1, 2, 3]" for k
    by (simp add: ex_sort_state_def)
  have unknown: "sortBy (ex_sort_state ''forks'') \<notin>
      {''recent-likes'', ''stars'', ''stars-asc'', ''name'', ''name-desc'', ''updated'', ''created''}"
    by (simp add: key)
  note t = sort_comparator_semantics [of "\<lambda>s. s"]
  have s1: "sorted_wrt (\<lambda>a b. originalIndex (mem (ex_sort_state ''recent-likes'') a)
                      \<le> originalIndex (mem (ex_sort_state ''recent-likes'') b)) [3, 2, 1, 0]"
    using t [of "ex_sort_state ''recent-likes''"] key [of "''recent-likes''"]
    by ((simp_all only: ev)?, simp_all?)
  have s2: "sorted_wrt (\<lambda>a b. stargazers_count (mem (ex_sort_state ''stars'') b)
                      \<le> stargazers_count (mem (ex_sort_state ''stars'') a)) [1, 0, 3, 2]"
    using t [of "ex_sort_state ''stars''"] key [of "''stars''"]
    by ((simp_all only: ev)?, simp_all?)
  have s3: "sorted_wrt (\<lambda>a b. stargazers_count (mem (ex_sort_state ''stars-asc'') a)
                      \<le> stargazers_count (mem (ex_sort_state ''stars-asc'') b)) [2, 3, 0, 1]"
    using t [of "ex_sort_state ''stars-asc''"] key [of "''stars-asc''"]
    by ((simp_all only: ev)?, simp_all?)
  have s4: "sorted_wrt (\<lambda>a b. toLowerCase (name (mem (ex_sort_state ''name'') a))
                      \<le> toLowerCase (name (mem (ex_sort_state ''name'') b))) [1, 3, 0, 2]"
    and s4': "filter (\<lambda>a. toLowerCase (name (mem (ex_sort_state ''name'') a)) = ''apple'') [1, 3, 0, 2] =
    filter (\<lambda>a. toLowerCase (name (mem (ex_sort_state ''name'') a)) = ''apple'') [0, 1, 2, 3]"
    using t [of "ex_sort_state ''name''"] key [of "''name''"]
    by ((simp_all only: ev fl)?, simp_all?)
  have s5: "sorted_wrt (\<lambda>a b. toLowerCase (name (mem (ex_sort_state ''name-desc'') b))
                      \<le> toLowerCase (name (mem (ex_sort_state ''name-desc'') a))) [2, 0, 1, 3]"
    and s5': "filter (\<lambda>a. toLowerCase (name (mem (ex_sort_state ''name-desc'') a)) = ''apple'') [2, 0, 1, 3] =
    filter (\<lambda>a. toLowerCase (name (mem (ex_sort_state ''name-desc'') a)) = ''apple'') [0, 1, 2, 3]"
    using t [of "ex_sort_state ''name-desc''"] key [of "''name-desc''"]
    by ((simp_all only: ev fl)?, simp_all?)
  have s6: "sorted_wrt (\<lambda>a b. updated_at (mem (ex_sort_state ''updated'') b)
                      \<le> updated_at (mem (ex_sort_state ''updated'') a)) [1, 0, 2, 3]"
    using t [of "ex_sort_state ''updated''"] key [of "''updated''"]
    by ((simp_all only: ev)?, simp_all?)
  have s7: "sorted_wrt (\<lambda>a b. created_at (mem (ex_sort_state ''created'') b)
                      \<le> created_at (mem (ex_sort_state ''created'') a)) [3, 0, 2, 1]"
    using t [of "ex_sort_state ''created''"] key [of "''created''"]
    by ((simp_all only: ev)?, simp_all?)
  have s8: "?run ''forks'' = filteredRepositories
      (sortRepositories (\<lambda>s. s) ((ex_sort_state ''forks'')\<lparr>sortBy := ''stars''\<rparr>))"
    using t [of "ex_sort_state ''forks''"] unknown by blast
  show ?thesis
    using ev vals s1 s2 s3 s4 s4' s5 s5' s6 s7 s8 by - (intro conjI; assumption)
qed

section \<open>Properties of the grouping\<close>

lemmas group_eval =
  groupRepositoriesByLanguage_def group_key_def push_group_def Object_prototype_names_def
  Object_entries_def is_array_index_def is_digit_def index_value_def js_sort_def
  by_group_size_def by_language_order_def order_or_999_def Object_fromEntries_def
  set_property_def normalize_repo_def ex_in_language_def ex_languages_def ex_group_state_def
  group_order_def

lemma map_fst_push_group:
  "map fst (push_group G k a) = (if k \<in> set (map fst G) then map fst G else map fst G @ [k])"
proof (cases "map_of G k")
  case None
  then have "k \<notin> set (map fst G)" by (simp add: map_of_eq_None_iff)
  with None show ?thesis by (simp add: push_group_def)
next
  case (Some ms)
  then have "k \<in> set (map fst G)" by (metis map_of_eq_None_iff option.distinct(1) set_map)
  moreover have "map fst (map (\<lambda>p. if fst p = k then (k, snd p @ [a]) else p) G) = map fst G"
    by (induction G) auto
  ultimately show ?thesis using Some by (simp add: push_group_def)
qed

lemma map_of_push_group:
  "map_of (push_group G k a) =
   (map_of G)(k \<mapsto> (case map_of G k of None \<Rightarrow> [a] | Some ms \<Rightarrow> ms @ [a]))"
proof (cases "map_of G k")
  case None
  have "map_of (G @ [(k, [a])]) j = ((map_of G)(k \<mapsto> [a])) j" for j
    using None by (cases "map_of G j") (auto simp: map_add_def)
  then have "map_of (G @ [(k, [a])]) = (map_of G)(k \<mapsto> [a])" by (rule ext)
  with None show ?thesis by (simp add: push_group_def)
next
  case (Some ms)
  have "map_of (map (\<lambda>p. if fst p = k then (k, snd p @ [a]) else p) G) j =
        (if j = k then map_option (\<lambda>ms. ms @ [a]) (map_of G k) else map_of G j)" for j
    by (induction G) auto
  with Some show ?thesis by (auto simp: push_group_def fun_eq_iff)
qed

lemma distinct_push_group:
  "distinct (map fst G) \<Longrightarrow> distinct (map fst (push_group G k a))"
  by (simp add: map_fst_push_group)

lemma group_repos_result:
  assumes "group_repos h G0 refs = Inr G" and "distinct (map fst G0)"
  shows "distinct (map fst G) \<and>
         set (map fst G) = set (map fst G0) \<union> group_key ` h ` set refs \<and>
         (\<forall>k \<in> set (map fst G).
            map_of G k = Some ((case map_of G0 k of None \<Rightarrow> [] | Some ms \<Rightarrow> ms) @
                               filter (\<lambda>a. group_key (h a) = k) refs))"
  using assms
proof (induction refs arbitrary: G0)
  case Nil
  then show ?case
    by (auto simp: map_of_eq_None_iff split: option.splits) 
next
  case (Cons a refs)
  let ?k = "group_key (h a)"
  let ?G1 = "push_group G0 ?k a"
  from Cons.prems(1) have np: "?k \<notin> set Object_prototype_names"
    and run: "group_repos h ?G1 refs = Inr G"
    by (auto simp: Let_def split: if_splits)
  have d1: "distinct (map fst ?G1)" using Cons.prems(2) by (rule distinct_push_group)
  note IH = Cons.IH [OF run d1]
  have keys1: "set (map fst ?G1) = insert ?k (set (map fst G0))"
    by (auto simp: map_fst_push_group)
  have members: "map_of G k = Some ((case map_of G0 k of None \<Rightarrow> [] | Some ms \<Rightarrow> ms) @
                               filter (\<lambda>b. group_key (h b) = k) (a # refs))"
    if "k \<in> set (map fst G)" for k
  proof -
    from IH that have "map_of G k = Some ((case map_of ?G1 k of None \<Rightarrow> [] | Some ms \<Rightarrow> ms) @
                               filter (\<lambda>b. group_key (h b) = k) refs)" by blast
    then show ?thesis
      by (cases "k = ?k") (auto simp: map_of_push_group split: option.splits)
  qed
  from IH keys1 members show ?case by auto
qed

lemma group_repos_members:
  assumes "group_repos h [] refs = Inr G" and "(k, ms) \<in> set G"
  shows "ms = filter (\<lambda>a. group_key (h a) = k) refs" and "k \<in> group_key ` h ` set refs"
proof -
  have e: "distinct (map fst ([] :: (string \<times> ref list) list))" by simp
  note r = group_repos_result [OF assms(1) e]
  note d = r [THEN conjunct1]
  from assms(2) have k: "k \<in> set (map fst G)" by force
  with r [THEN conjunct2, THEN conjunct1] show "k \<in> group_key ` h ` set refs" by simp
  from d assms(2) have m: "map_of G k = Some ms" by simp
  from r [THEN conjunct2, THEN conjunct2] k
  have "map_of G k = Some ((case map_of [] k of None \<Rightarrow> [] | Some ms \<Rightarrow> ms) @
                               filter (\<lambda>a. group_key (h a) = k) refs)" by (rule bspec)
  with m show "ms = filter (\<lambda>a. group_key (h a) = k) refs" by simp
qed

lemma Object_entries_plain:
  "\<forall>k \<in> set (map fst props). \<not> is_array_index k \<Longrightarrow> Object_entries props = props"
proof -
  assume a: "\<forall>k \<in> set (map fst props). \<not> is_array_index k"
  then have "filter (\<lambda>p. is_array_index (fst p)) props = []" by (auto simp: filter_empty_conv)
  moreover from a have "filter (\<lambda>p. \<not> is_array_index (fst p)) props = props"
    by (auto simp: filter_id_conv)
  ultimately show ?thesis by (simp add: Object_entries_def)
qed

lemma foldl_set_property:
  "distinct (map fst (obj @ es)) \<Longrightarrow>
   foldl (\<lambda>obj p. set_property obj (fst p) (snd p)) obj es = obj @ es"
proof (induction es arbitrary: obj)
  case Nil
  show ?case by simp
next
  case (Cons e es)
  from Cons.prems have "fst e \<notin> fst ` set obj" by auto
  then have "set_property obj (fst e) (snd e) = obj @ [e]" by (simp add: set_property_def)
  moreover from Cons.prems have "distinct (map fst ((obj @ [e]) @ es))" by simp
  ultimately show ?case using Cons.IH [of "obj @ [e]"] by simp
qed

lemma Object_fromEntries_distinct:
  "distinct (map fst es) \<Longrightarrow> Object_fromEntries es = es"
  using foldl_set_property [of "[]" es] by (simp add: Object_fromEntries_def)

text \<open>
  When no group key is an array index, the order in which the renderer visits the groups
  is the order the sort produced.
\<close>

lemma groupRepositoriesByLanguage_order:
  assumes run: "groupRepositoriesByLanguage st refs = Inr obj"
    and plain: "\<forall>a \<in> set refs. \<not> is_array_index (group_key (mem st a))"
  obtains G where "group_repos (mem st) [] refs = Inr G"
    and "obj = (if languageCategory st = ''recently''
                then js_sort (by_language_order (languageOrder st)) G
                else js_sort by_group_size G)"
    and "Object_entries obj = obj"
    and "mset obj = mset G"
proof -
  from run obtain G where G: "group_repos (mem st) [] refs = Inr G"
    by (auto simp: groupRepositoriesByLanguage_def split: sum.splits)
  have e: "distinct (map fst ([] :: (string \<times> ref list) list))" by simp
  note r = group_repos_result [OF G e]
  note dG = r [THEN conjunct1] and kG = r [THEN conjunct2, THEN conjunct1]
  from kG plain have pk: "\<forall>k \<in> set (map fst G). \<not> is_array_index k" by auto
  then have eG: "Object_entries G = G" by (rule Object_entries_plain)
  let ?S = "if languageCategory st = ''recently''
            then js_sort (by_language_order (languageOrder st)) G
            else js_sort by_group_size G"
  have mS: "mset ?S = mset G" by (simp add: mset_js_sort)
  then have mm: "mset (map fst ?S) = mset (map fst G)" by (metis mset_map)
  have dS: "distinct (map fst ?S)"
    using mset_eq_imp_distinct_iff [OF mm] dG by simp
  have sS: "set (map fst ?S) = set (map fst G)"
    using mset_eq_setD [OF mm] .
  from run G eG have "obj = Object_fromEntries ?S"
    by (auto simp: groupRepositoriesByLanguage_def)
  with dS have obj: "obj = ?S" by (simp add: Object_fromEntries_distinct)
  from pk sS have "\<forall>k \<in> set (map fst ?S). \<not> is_array_index k" by simp
  then have "Object_entries ?S = ?S" by (rule Object_entries_plain)
  with obj have "Object_entries obj = obj" by simp
  with G obj mS show ?thesis using that by simp
qed

lemma by_group_size_le: "by_group_size A B \<le> 0 \<longleftrightarrow> length (snd B) \<le> length (snd A)"
  by (simp add: by_group_size_def)

lemma by_language_order_le:
  "by_language_order lo A B \<le> 0 \<longleftrightarrow> order_or_999 lo (fst A) \<le> order_or_999 lo (fst B)"
  by (simp add: by_language_order_def)

text \<open>
  Claim C7 (grouping order by categorization mode), as amended. Let the grouping
  return, which it does unless a language is named like a member of
  \<^verbatim>\<open>Object.prototype\<close>, and let no language be an array-index string, which
  \<^verbatim>\<open>Object.entries\<close> would enumerate first. The groups are the languages of the list,
  each once. In a mode other than \<^verbatim>\<open>recently\<close> they are in descending order of size.
  In mode \<^verbatim>\<open>recently\<close> they are in ascending order of their position in
  \<^verbatim>\<open>languageOrder\<close>, an absent language counting as position 999; so when every
  position in use is below 999, no language of \<^verbatim>\<open>languageOrder\<close> comes after an
  absent one.
\<close>

theorem grouping_order:
  assumes "groupRepositoriesByLanguage st repos = Inr obj"
    and "\<forall>a \<in> set repos. \<not> is_array_index (group_key (mem st a))"
  shows "set (group_order obj) = group_key ` mem st ` set repos \<and>
         distinct (group_order obj) \<and>
         (languageCategory st \<noteq> ''recently'' \<longrightarrow>
            sorted_wrt (\<lambda>x y. group_size (mem st) repos y \<le> group_size (mem st) repos x)
              (group_order obj)) \<and>
         (languageCategory st = ''recently'' \<longrightarrow>
            sorted_wrt (\<lambda>x y. order_or_999 (languageOrder st) x \<le> order_or_999 (languageOrder st) y)
              (group_order obj)) \<and>
         (languageCategory st = ''recently'' \<and>
          (\<forall>x \<in> set (group_order obj). \<forall>n. languageOrder st x = Some n \<longrightarrow> n < 999) \<longrightarrow>
            sorted_wrt (\<lambda>x y. languageOrder st x = None \<longrightarrow> languageOrder st y = None)
              (group_order obj))"
proof -
  let ?h = "mem st" and ?lo = "languageOrder st"
  from assms obtain G where G: "group_repos ?h [] repos = Inr G"
    and obj: "obj = (if languageCategory st = ''recently''
                     then js_sort (by_language_order ?lo) G else js_sort by_group_size G)"
    and plain: "Object_entries obj = obj"
    and perm: "mset obj = mset G"
    by (rule groupRepositoriesByLanguage_order)
  have order: "group_order obj = map fst obj" by (simp add: group_order_def plain)
  have e: "distinct (map fst ([] :: (string \<times> ref list) list))" by simp
  note r = group_repos_result [OF G e]
  from perm have mm: "mset (map fst obj) = mset (map fst G)" by (metis mset_map)
  have keys: "set (group_order obj) = group_key ` ?h ` set repos"
    using mset_eq_setD [OF mm] r [THEN conjunct2, THEN conjunct1] by (simp add: order)
  have dist: "distinct (group_order obj)"
    using mset_eq_imp_distinct_iff [OF mm] r [THEN conjunct1] by (simp add: order)
  have size: "length (snd A) = group_size ?h repos (fst A)" if "A \<in> set obj" for A
  proof -
    from that perm have "A \<in> set G" by (metis set_mset_mset)
    then have "(fst A, snd A) \<in> set G" by simp
    from group_repos_members(1) [OF G this] show ?thesis by (simp add: group_size_def)
  qed
  have popular: "sorted_wrt (\<lambda>x y. group_size ?h repos y \<le> group_size ?h repos x) (group_order obj)"
    if "languageCategory st \<noteq> ''recently''"
  proof -
    have "sorted_wrt (\<lambda>A B. by_group_size A B \<le> 0) (js_sort by_group_size G)"
      by (rule sorted_js_sort) (auto simp: by_group_size_le)
    with that have "sorted_wrt (\<lambda>A B. length (snd B) \<le> length (snd A)) obj"
      by (simp add: obj by_group_size_le)
    then have "sorted_wrt (\<lambda>A B. group_size ?h repos (fst B) \<le> group_size ?h repos (fst A)) obj"
      by (rule sorted_wrt_mono_rel [rotated]) (simp add: size)
    then show ?thesis by (simp add: order sorted_wrt_map)
  qed
  have recently: "sorted_wrt (\<lambda>x y. order_or_999 ?lo x \<le> order_or_999 ?lo y) (group_order obj)"
    if "languageCategory st = ''recently''"
  proof -
    have "sorted_wrt (\<lambda>A B. by_language_order ?lo A B \<le> 0) (js_sort (by_language_order ?lo) G)"
      by (rule sorted_js_sort) (auto simp: by_language_order_le)
    with that have "sorted_wrt (\<lambda>A B. order_or_999 ?lo (fst A) \<le> order_or_999 ?lo (fst B)) obj"
      by (simp add: obj by_language_order_le)
    then show ?thesis by (simp add: order sorted_wrt_map)
  qed
  have absent_last: "sorted_wrt (\<lambda>x y. ?lo x = None \<longrightarrow> ?lo y = None) (group_order obj)"
    if "languageCategory st = ''recently''"
      and bound: "\<forall>x \<in> set (group_order obj). \<forall>n. ?lo x = Some n \<longrightarrow> n < 999"
  proof -
    have "?lo y = None"
      if "y \<in> set (group_order obj)" "order_or_999 ?lo x \<le> order_or_999 ?lo y" "?lo x = None"
      for x y
    proof (cases "?lo y")
      case None
      then show ?thesis .
    next
      case (Some n)
      with bound that(1) have "n < 999" by blast
      with Some that(2,3) show ?thesis by (simp add: order_or_999_def)
    qed
    with recently [OF that(1)] show ?thesis
      by (auto elim!: sorted_wrt_mono_rel [rotated])
  qed
  from keys dist popular recently absent_last show ?thesis by blast
qed

theorem grouping_order_witness:
  "(groupRepositoriesByLanguage (ex_group_state ''popular'' Map.empty) [1, 2, 3, 4, 5, 6, 7, 8, 9] =
      Inr [(''TypeScript'', [3, 5, 6, 8, 9]), (''Go'', [1, 4, 7]), (''Rust'', [2])] \<and>
    group_order [(''TypeScript'', [3, 5, 6, 8, 9]), (''Go'', [1, 4, 7]), (''Rust'', [2::nat])] =
      [''TypeScript'', ''Go'', ''Rust''] \<and>
    map (group_size (mem (ex_group_state ''popular'' Map.empty)) [1, 2, 3, 4, 5, 6, 7, 8, 9])
      [''TypeScript'', ''Go'', ''Rust''] = [5, 3, 1] \<and>
    sorted_wrt (\<lambda>x y. group_size (mem (ex_group_state ''popular'' Map.empty)) [1, 2, 3, 4, 5, 6, 7, 8, 9] y
                     \<le> group_size (mem (ex_group_state ''popular'' Map.empty)) [1, 2, 3, 4, 5, 6, 7, 8, 9] x)
      [''TypeScript'', ''Go'', ''Rust'']) \<and>
   (groupRepositoriesByLanguage (ex_group_state ''recently'' [''Rust'' \<mapsto> 0, ''Go'' \<mapsto> 1]) [0, 1, 2] =
      Inr [(''Rust'', [2]), (''Go'', [1]), (''C'', [0])] \<and>
    group_order [(''Rust'', [2]), (''Go'', [1]), (''C'', [0::nat])] = [''Rust'', ''Go'', ''C''] \<and>
    sorted_wrt (\<lambda>x y. [''Rust'' \<mapsto> 0, ''Go'' \<mapsto> 1::nat] x = None \<longrightarrow>
                       [''Rust'' \<mapsto> 0, ''Go'' \<mapsto> 1::nat] y = None)
      [''Rust'', ''Go'', ''C''])"
proof -
  let ?p = "ex_group_state ''popular'' Map.empty"
  let ?r = "ex_group_state ''recently'' [''Rust'' \<mapsto> 0, ''Go'' \<mapsto> 1]"
  have runp: "groupRepositoriesByLanguage ?p [1, 2, 3, 4, 5, 6, 7, 8, 9] =
      Inr [(''TypeScript'', [3, 5, 6, 8, 9]), (''Go'', [1, 4, 7]), (''Rust'', [2])]"
    by (simp add: group_eval)
  have runr: "groupRepositoriesByLanguage ?r [0, 1, 2] =
      Inr [(''Rust'', [2]), (''Go'', [1]), (''C'', [0])]"
    by (simp add: group_eval)
  have plainp: "\<forall>a \<in> set [1, 2, 3, 4, 5, 6, 7, 8, 9]. \<not> is_array_index (group_key (mem ?p a))"
    by (simp add: group_eval)
  have plainr: "\<forall>a \<in> set [0, 1, 2]. \<not> is_array_index (group_key (mem ?r a))"
    by (simp add: group_eval)
  have op: "group_order [(''TypeScript'', [3, 5, 6, 8, 9]), (''Go'', [1, 4, 7]), (''Rust'', [2::nat])] =
      [''TypeScript'', ''Go'', ''Rust'']"
    and orr: "group_order [(''Rust'', [2]), (''Go'', [1]), (''C'', [0::nat])] = [''Rust'', ''Go'', ''C'']"
    by (simp_all add: group_eval)
  have sizes: "map (group_size (mem ?p) [1, 2, 3, 4, 5, 6, 7, 8, 9])
      [''TypeScript'', ''Go'', ''Rust''] = [5, 3, 1]"
    by (simp add: group_size_def group_eval)
  have catp: "languageCategory ?p \<noteq> ''recently''" and catr: "languageCategory ?r = ''recently''"
    and lor: "languageOrder ?r = [''Rust'' \<mapsto> 0, ''Go'' \<mapsto> 1]"
    by (simp_all add: ex_group_state_def)
  have bound: "\<forall>x \<in> set [''Rust'', ''Go'', ''C'']. \<forall>n. languageOrder ?r x = Some n \<longrightarrow> n < 999"
    by (simp add: ex_group_state_def)
  have sp: "sorted_wrt (\<lambda>x y. group_size (mem ?p) [1, 2, 3, 4, 5, 6, 7, 8, 9] y
                     \<le> group_size (mem ?p) [1, 2, 3, 4, 5, 6, 7, 8, 9] x)
      [''TypeScript'', ''Go'', ''Rust'']"
    using grouping_order [OF runp plainp] catp by (simp only: op; blast?)
  have sr: "sorted_wrt (\<lambda>x y. [''Rust'' \<mapsto> 0, ''Go'' \<mapsto> 1::nat] x = None \<longrightarrow>
                       [''Rust'' \<mapsto> 0, ''Go'' \<mapsto> 1::nat] y = None)
      [''Rust'', ''Go'', ''C'']"
    using grouping_order [OF runr plainr] catr bound by (simp only: orr lor; blast?)
  show ?thesis using runp op sizes sp runr orr sr by - (intro conjI; assumption)
qed

text \<open>
  The claim as first stated fails once a position in \<^verbatim>\<open>languageOrder\<close> exceeds 999:
  \<open>Zig\<close> has position 1000, \<open>C\<close> has none and is given 999, so \<open>C\<close> is placed
  before \<open>Zig\<close>, although \<open>Zig\<close> comes first in the list.
\<close>

theorem grouping_order_counterexample:
  "groupRepositoriesByLanguage (ex_group_state ''recently'' [''Zig'' \<mapsto> 1000]) [10, 0] =
     Inr [(''C'', [0]), (''Zig'', [10])] \<and>
   group_order [(''C'', [0]), (''Zig'', [10::nat])] = [''C'', ''Zig''] \<and>
   languageOrder (ex_group_state ''recently'' [''Zig'' \<mapsto> 1000]) ''C'' = None \<and>
   languageOrder (ex_group_state ''recently'' [''Zig'' \<mapsto> 1000]) ''Zig'' = Some 1000"
  by (simp add: group_eval)

text \<open>
  Positions beyond 999 arise from a payload with more than a thousand keys:
  \<^verbatim>\<open>processRepositoryData\<close> gives the key at place \<open>j\<close> of the object the position \<open>j\<close>.
\<close>

lemma foldl_flatten_step_other:
  "k \<notin> set (map fst props) \<Longrightarrow> fst (foldl flatten_step (lo, i, acc) props) k = lo k"
proof (induction props arbitrary: lo i acc)
  case Nil
  show ?case by simp
next
  case (Cons p props)
  obtain lang v where p: "p = (lang, v)" by (cases p)
  with Cons.prems have "k \<noteq> lang" "k \<notin> set (map fst props)" by auto
  then show ?case
    by (cases "languageOrder_truthy lo lang") (simp_all add: p Cons.IH)
qed

lemma foldl_flatten_step_order:
  assumes "distinct (map fst props)"
    and "\<forall>k \<in> set (map fst props). k \<notin> set Object_prototype_names \<and> lo k = None"
    and "j < length props"
  shows "fst (foldl flatten_step (lo, i, acc) props) (fst (props ! j)) = Some (i + j)"
  using assms
proof (induction props arbitrary: lo i acc j)
  case Nil
  then show ?case by simp
next
  case (Cons p props)
  obtain lang v where p: "p = (lang, v)" by (cases p)
  from Cons.prems(2) have fresh: "\<not> languageOrder_truthy lo lang"
    by (simp add: p languageOrder_truthy_def)
  let ?lo = "lo(lang \<mapsto> i)"
  let ?acc = "case v of GArray rs \<Rightarrow> acc @ rs | GOther \<Rightarrow> acc"
  have step: "foldl flatten_step (lo, i, acc) (p # props) =
              foldl flatten_step (?lo, i + 1, ?acc) props"
    using fresh by (simp add: p)
  show ?case
  proof (cases j)
    case 0
    from Cons.prems(1) have "lang \<notin> set (map fst props)" by (simp add: p)
    then have "fst (foldl flatten_step (?lo, i + 1, ?acc) props) lang = ?lo lang"
      by (rule foldl_flatten_step_other)
    then have "fst (foldl flatten_step (lo, i, acc) (p # props)) lang = Some i"
      unfolding step by simp
    with 0 show ?thesis by (simp add: p)
  next
    case (Suc j')
    from Cons.prems have d: "distinct (map fst props)"
      and f: "\<forall>k \<in> set (map fst props). k \<notin> set Object_prototype_names \<and> ?lo k = None"
      and l: "j' < length props"
      by (auto simp: p Suc)
    from Cons.IH [OF d f l, of "i + 1" ?acc]
    have "fst (foldl flatten_step (lo, i, acc) (p # props)) (fst (props ! j')) = Some (i + 1 + j')"
      unfolding step .
    with Suc show ?thesis by simp
  qed
qed

lemma languageOrder_positions:
  assumes "distinct (map fst props)"
    and "\<forall>k \<in> set (map fst props). k \<notin> set Object_prototype_names"
    and "j < length props"
  shows "\<exists>lo out. processRepositoryData now (PObject props) = Inr (lo, out) \<and>
                  lo (fst (props ! j)) = Some j"
proof -
  obtain lo i repos where f: "foldl flatten_step (Map.empty, 0, []) props = (lo, i, repos)"
    by (cases "foldl flatten_step (Map.empty, 0, []) props") auto
  have "fst (foldl flatten_step (Map.empty, 0, []) props) (fst (props ! j)) = Some (0 + j)"
    using assms by (intro foldl_flatten_step_order) auto
  with f have "lo (fst (props ! j)) = Some j" by simp
  then show ?thesis by (simp add: processRepositoryData_def flatten_payload_def f)
qed

end
